theory Spec2Isabelle
  imports Complex_Main "HOL-Library.Multiset" "HOL-Library.Sublist"
begin

section \<open>The genetic algorithm of \<^verbatim>\<open>genetic_algorithm.py\<close>\<close>

text \<open>
  The two source files (\<^verbatim>\<open>genetic_algorithm.py\<close> and its comment-free copy
  \<^verbatim>\<open>genetic_algorithm_uc.py\<close>) hold the same code; one embedding covers both.

  Modelling decisions.
  \<^item> Python floats are modelled as \<^typ>\<open>real\<close>: rounding, infinities and NaN are
    outside the model.
  \<^item> A point (a Python list of floats) is a mutable object. Points live in a heap, a list
    of cells addressed by index; a population is a list of addresses. Allocation appends a
    cell, so a new address is the heap's length. This makes aliasing between parents,
    children and elites visible.
  \<^item> The outer lists (population, elites, mating pool, tournament) are never shared between
    two live names in the source, so they are values; a function that mutates a list of its
    caller (\<^verbatim>\<open>tournament_selection\<close>) returns the updated list.
  \<^item> The module \<^verbatim>\<open>random\<close> is not part of the repository. The random source
    is a parameter: an infinite tape of raw draws, consumed front to back.
  \<^item> Exceptions are values of \<^typ>\<open>'e + 'a\<close>; a loop that may run forever returns
    \<^typ>\<open>'a option\<close>, where \<open>None\<close> means that it never returns.
\<close>

subsection \<open>Errors, configuration, state\<close>

datatype error = IndexError | ValueError

text \<open>The module-level constants set under \<^verbatim>\<open>__main__\<close> and read as globals.\<close>

record config =
  pop_size :: int
  search_min :: real
  search_max :: real
  cross_rate :: real
  mutat_rate :: real

type_synonym point = "real list"
type_synonym addr = nat
type_synonym heap = "point list"
type_synonym rng = "nat \<Rightarrow> nat"

record state =
  heap :: heap
  rng :: rng

subsection \<open>The random source\<close>

text \<open>
  Modelled from the library's documented behaviour, with the tape as the source of
  entropy: \<^verbatim>\<open>random()\<close> is a 53-bit integer divided by \<open>2^53\<close>, so it lies in
  \<open>[0, 1)\<close>; \<^verbatim>\<open>uniform(a, b)\<close> is \<open>a + (b - a) * random()\<close>;
  \<^verbatim>\<open>randrange(n)\<close> raises \<^verbatim>\<open>ValueError\<close> for \<open>n \<le> 0\<close> and otherwise
  returns an integer of \<open>[0, n)\<close>; \<^verbatim>\<open>randint(a, b)\<close> is
  \<^verbatim>\<open>randrange(a, b + 1)\<close>. Every call consumes one raw draw.
\<close>

definition next_raw :: "rng \<Rightarrow> nat \<times> rng" where
  "next_raw g = (g 0, \<lambda>i. g (Suc i))"

definition random_unit :: "rng \<Rightarrow> real \<times> rng" where
  "random_unit g = (case next_raw g of (r, g') \<Rightarrow>
     (real (r mod 9007199254740992) / 9007199254740992, g'))"

definition uniform :: "real \<Rightarrow> real \<Rightarrow> rng \<Rightarrow> real \<times> rng" where
  "uniform a b g = (case random_unit g of (u, g') \<Rightarrow> (a + (b - a) * u, g'))"

definition randrange :: "int \<Rightarrow> rng \<Rightarrow> error + (nat \<times> rng)" where
  "randrange n g =
     (if n \<le> 0 then Inl ValueError
      else (case next_raw g of (r, g') \<Rightarrow> Inr (r mod nat n, g')))"

definition randint :: "int \<Rightarrow> int \<Rightarrow> rng \<Rightarrow> error + (int \<times> rng)" where
  "randint a b g =
     (if b + 1 - a \<le> 0 then Inl ValueError
      else (case next_raw g of (r, g') \<Rightarrow> Inr (a + int (r mod nat (b + 1 - a)), g')))"

text \<open>A tape that replays a list of raw draws and yields 0 afterwards.\<close>

definition tape_of :: "nat list \<Rightarrow> rng" where
  "tape_of xs = (\<lambda>i. if i < length xs then xs ! i else 0)"

subsection \<open>Crossover\<close>

text \<open>
  The loop of \<^verbatim>\<open>crossover\<close> over \<^verbatim>\<open>range(0, len(parent_a))\<close>, given the
  indices still to visit. \<^verbatim>\<open>parent_a[i]\<close> is in range by the loop's bound;
  \<^verbatim>\<open>parent_b[i]\<close> raises \<^verbatim>\<open>IndexError\<close> when \<open>parent_b\<close> is shorter.
\<close>

fun crossover_loop ::
  "point \<Rightarrow> point \<Rightarrow> int \<Rightarrow> nat list \<Rightarrow> point \<Rightarrow> point \<Rightarrow> error + (point \<times> point)" where
  "crossover_loop parent_a parent_b pivot [] child_a child_b = Inr (child_a, child_b)"
| "crossover_loop parent_a parent_b pivot (i # is) child_a child_b =
     (if i < length parent_b then
        (if int i < pivot
         then crossover_loop parent_a parent_b pivot is
                (child_a @ [parent_a ! i]) (child_b @ [parent_b ! i])
         else crossover_loop parent_a parent_b pivot is
                (child_a @ [parent_b ! i]) (child_b @ [parent_a ! i]))
      else Inl IndexError)"

text \<open>
  \<^verbatim>\<open>copy.deepcopy([parent_a, parent_b])\<close>: each parent is copied into a fresh
  cell; the copy's memo table maps one object to one copy, so when both names denote the
  same object both children are the same fresh cell.
\<close>

definition deepcopy_pair :: "addr \<Rightarrow> addr \<Rightarrow> heap \<Rightarrow> (addr \<times> addr) \<times> heap" where
  "deepcopy_pair a b h =
     (if b = a then ((length h, length h), h @ [h ! a])
      else ((length h, Suc (length h)), h @ [h ! a, h ! b]))"

text \<open>
  \<^verbatim>\<open>crossover(parent_a, parent_b)\<close> on the addresses of the parents. The two
  children are lists built locally and returned; they are allocated when they are
  returned, which no caller can tell from allocating them empty and appending.
\<close>

definition crossover :: "config \<Rightarrow> addr \<Rightarrow> addr \<Rightarrow> state \<Rightarrow> error + ((addr \<times> addr) \<times> state)" where
  "crossover cfg parent_a parent_b s =
     (case uniform 0 1 (rng s) of (u, g1) \<Rightarrow>
        if u \<ge> cross_rate cfg then
          (case deepcopy_pair parent_a parent_b (heap s) of
             (children, h') \<Rightarrow> Inr (children, \<lparr>heap = h', rng = g1\<rparr>))
        else
          (case randint 1 (int (length (heap s ! parent_a)) - 1) g1 of
             Inl e \<Rightarrow> Inl e
           | Inr (pivot, g2) \<Rightarrow>
               (case crossover_loop (heap s ! parent_a) (heap s ! parent_b) pivot
                       [0..<length (heap s ! parent_a)] [] [] of
                  Inl e \<Rightarrow> Inl e
                | Inr (child_a, child_b) \<Rightarrow>
                    Inr ((length (heap s), Suc (length (heap s))),
                         \<lparr>heap = heap s @ [child_a, child_b], rng = g2\<rparr>))))"

subsection \<open>Mutation\<close>

text \<open>
  One iteration of the loop of \<^verbatim>\<open>mutation\<close>, at index \<open>i\<close> of the list at
  address \<open>child\<close>: the list is updated in place.
\<close>

definition mutate_gene :: "config \<Rightarrow> addr \<Rightarrow> real \<Rightarrow> real \<Rightarrow> nat \<Rightarrow> state \<Rightarrow> state" where
  "mutate_gene cfg child s_min s_max i s =
     (case uniform 0 1 (rng s) of (u, g1) \<Rightarrow>
        if u \<le> mutat_rate cfg then
          (case uniform (s_min * 0.5) (s_max * 0.5) g1 of (diff, g2) \<Rightarrow>
             let x0 = (heap s ! child) ! i + diff;
                 x1 = max x0 s_min;
                 x2 = min x1 s_max
             in \<lparr>heap = (heap s)[child := (heap s ! child)[i := x2]], rng = g2\<rparr>)
        else \<lparr>heap = heap s, rng = g1\<rparr>)"

text \<open>
  \<^verbatim>\<open>mutation(child, s_min, s_max)\<close>: the loop over
  \<^verbatim>\<open>range(len(child))\<close>; the value returned is the argument itself.
\<close>

definition mutation :: "config \<Rightarrow> addr \<Rightarrow> real \<Rightarrow> real \<Rightarrow> state \<Rightarrow> addr \<times> state" where
  "mutation cfg child s_min s_max s =
     (child, fold (mutate_gene cfg child s_min s_max) [0..<length (heap s ! child)] s)"

text \<open>
  The state in which the loop of \<^verbatim>\<open>mutation\<close> reaches index \<open>i\<close>, and the
  first draw it takes there: the draw that decides whether gene \<open>i\<close> is mutated.
\<close>

definition mutation_at :: "config \<Rightarrow> addr \<Rightarrow> real \<Rightarrow> real \<Rightarrow> nat \<Rightarrow> state \<Rightarrow> state" where
  "mutation_at cfg child s_min s_max i s = fold (mutate_gene cfg child s_min s_max) [0..<i] s"

definition gene_draw :: "config \<Rightarrow> addr \<Rightarrow> real \<Rightarrow> real \<Rightarrow> nat \<Rightarrow> state \<Rightarrow> real" where
  "gene_draw cfg child s_min s_max i s =
     fst (uniform 0 1 (rng (mutation_at cfg child s_min s_max i s)))"

definition gene_diff :: "config \<Rightarrow> addr \<Rightarrow> real \<Rightarrow> real \<Rightarrow> nat \<Rightarrow> state \<Rightarrow> real" where
  "gene_diff cfg child s_min s_max i s =
     fst (uniform (s_min * 0.5) (s_max * 0.5)
            (snd (uniform 0 1 (rng (mutation_at cfg child s_min s_max i s)))))"

subsection \<open>Selection\<close>

text \<open>The loop of \<^verbatim>\<open>elite_selection\<close>, given the indices still to visit.\<close>

fun elite_loop :: "addr list \<Rightarrow> nat list \<Rightarrow> addr list \<Rightarrow> error + addr list" where
  "elite_loop population [] elites = Inr elites"
| "elite_loop population (i # is) elites =
     (if i < length population
      then elite_loop population is (elites @ [population ! i])
      else Inl IndexError)"

definition elite_selection :: "addr list \<Rightarrow> real \<Rightarrow> error + addr list" where
  "elite_selection population percent =
     elite_loop population [0..<nat \<lceil>real (length population) * percent\<rceil>] []"

text \<open>The reference fitness function (Styblinski-Tang).\<close>

definition styb_tang :: "point \<Rightarrow> real" where
  "styb_tang point = (1 / 2) * fold (\<lambda>d summ. summ + (d ^ 4 - (16 * d ^ 2) + (5 * d))) point 0"

text \<open>
  \<^verbatim>\<open>list.pop(i)\<close>: a negative index counts from the end; an index out of range
  raises \<^verbatim>\<open>IndexError\<close>.
\<close>

definition list_pop :: "'a list \<Rightarrow> int \<Rightarrow> error + ('a \<times> 'a list)" where
  "list_pop xs i =
     (if 0 \<le> i \<and> i < int (length xs)
      then Inr (xs ! nat i, take (nat i) xs @ drop (Suc (nat i)) xs)
      else if i < 0 \<and> - int (length xs) \<le> i
      then Inr (xs ! nat (int (length xs) + i),
                take (nat (int (length xs) + i)) xs @ drop (Suc (nat (int (length xs) + i))) xs)
      else Inl IndexError)"

text \<open>
  The loop of \<^verbatim>\<open>tournament_selection\<close>: the number of iterations is fixed when
  the loop starts; each iteration pops one entrant out of the caller's population.
\<close>

fun tournament_loop ::
  "nat \<Rightarrow> addr list \<Rightarrow> addr list \<Rightarrow> rng \<Rightarrow> error + (addr list \<times> addr list \<times> rng)" where
  "tournament_loop 0 population tournament g = Inr (tournament, population, g)"
| "tournament_loop (Suc k) population tournament g =
     (case randint 0 (int (length population) - 1) g of
        Inl e \<Rightarrow> Inl e
      | Inr (random_idx, g') \<Rightarrow>
          (case list_pop population random_idx of
             Inl e \<Rightarrow> Inl e
           | Inr (entrant, population') \<Rightarrow>
               tournament_loop k population' (tournament @ [entrant]) g'))"

text \<open>
  \<^verbatim>\<open>tournament_selection(population, percent)\<close> returns the winner, the
  population as the call leaves it, and the random source. The entrants are sorted by
  \<^verbatim>\<open>styb_tang\<close>, whatever fitness function the driver was given.
\<close>

definition tournament_selection ::
  "heap \<Rightarrow> addr list \<Rightarrow> real \<Rightarrow> rng \<Rightarrow> error + (addr \<times> addr list \<times> rng)" where
  "tournament_selection h population percent g =
     (case tournament_loop (nat \<lceil>real (length population) * percent\<rceil>) population [] g of
        Inl e \<Rightarrow> Inl e
      | Inr (tournament, population', g') \<Rightarrow>
          (case sort_key (\<lambda>a. styb_tang (h ! a)) tournament of
             [] \<Rightarrow> Inl IndexError
           | winner # _ \<Rightarrow> Inr (winner, population', g')))"

subsection \<open>Evolution\<close>

text \<open>
  The \<^verbatim>\<open>while\<close> loop of \<^verbatim>\<open>evolve\<close>. It may run forever, so it returns an
  option: \<open>None\<close> when it never returns.
\<close>

partial_function (option) evolve_loop ::
  "config \<Rightarrow> addr list \<Rightarrow> addr list \<Rightarrow> state \<Rightarrow> (error + (addr list \<times> state)) option" where
  "evolve_loop cfg mating_pool new_population s =
     (if int (length new_population) < pop_size cfg then
        (case randrange (int (length mating_pool)) (rng s) of
           Inl e \<Rightarrow> Some (Inl e)
         | Inr (p_a_idx, g1) \<Rightarrow>
             (case randrange (int (length mating_pool)) g1 of
                Inl e \<Rightarrow> Some (Inl e)
              | Inr (p_b_idx, g2) \<Rightarrow>
                  if p_a_idx = p_b_idx
                  then evolve_loop cfg mating_pool new_population \<lparr>heap = heap s, rng = g2\<rparr>
                  else
                    (case crossover cfg (mating_pool ! p_a_idx) (mating_pool ! p_b_idx)
                            \<lparr>heap = heap s, rng = g2\<rparr> of
                       Inl e \<Rightarrow> Some (Inl e)
                     | Inr ((child_a, child_b), s1) \<Rightarrow>
                         (case mutation cfg child_a (search_min cfg) (search_max cfg) s1 of
                            (child_a', s2) \<Rightarrow>
                              (case mutation cfg child_b (search_min cfg) (search_max cfg) s2 of
                                 (child_b', s3) \<Rightarrow>
                                   evolve_loop cfg mating_pool
                                     (new_population @ [child_a', child_b']) s3)))))
      else Some (Inr (new_population, s)))"

definition evolve ::
  "config \<Rightarrow> addr list \<Rightarrow> addr list \<Rightarrow> state \<Rightarrow> (error + (addr list \<times> state)) option" where
  "evolve cfg mating_pool elites s = evolve_loop cfg mating_pool ([] @ elites) s"

subsection \<open>Initialization and the driver\<close>

fun random_point :: "nat \<Rightarrow> real \<Rightarrow> real \<Rightarrow> point \<Rightarrow> rng \<Rightarrow> point \<times> rng" where
  "random_point 0 lo hi point g = (point, g)"
| "random_point (Suc n) lo hi point g =
     (case uniform lo hi g of (x, g') \<Rightarrow> random_point n lo hi (point @ [x]) g')"

fun init_loop :: "nat \<Rightarrow> nat \<Rightarrow> real \<Rightarrow> real \<Rightarrow> addr list \<Rightarrow> state \<Rightarrow> addr list \<times> state" where
  "init_loop 0 ndim lo hi population s = (population, s)"
| "init_loop (Suc n) ndim lo hi population s =
     (case random_point ndim lo hi [] (rng s) of
        (point, g') \<Rightarrow>
          init_loop n ndim lo hi (population @ [length (heap s)])
            \<lparr>heap = heap s @ [point], rng = g'\<rparr>)"

definition initialize_population ::
  "int \<Rightarrow> int \<Rightarrow> real \<Rightarrow> real \<Rightarrow> state \<Rightarrow> addr list \<times> state" where
  "initialize_population psize ndim lo hi s = init_loop (nat psize) (nat ndim) lo hi [] s"

text \<open>The body of the driver's loop: one generation.\<close>

definition generation ::
  "config \<Rightarrow> real \<Rightarrow> real \<Rightarrow> (point \<Rightarrow> real) \<Rightarrow> addr list \<Rightarrow> state
     \<Rightarrow> (error + (addr list \<times> state)) option" where
  "generation cfg el_p to_p function population s =
     (let sorted_population = sort_key (\<lambda>a. function (heap s ! a)) population in
      case elite_selection sorted_population el_p of
        Inl e \<Rightarrow> Some (Inl e)
      | Inr elites \<Rightarrow>
          (case tournament_selection (heap s) (drop (length elites) sorted_population) to_p (rng s) of
             Inl e \<Rightarrow> Some (Inl e)
           | Inr (t_winner, rest, g1) \<Rightarrow>
               evolve cfg ([] @ elites @ [t_winner]) elites \<lparr>heap = heap s, rng = g1\<rparr>))"

text \<open>The driver's loop over \<^verbatim>\<open>range(1, epochs + 1)\<close>, by the epochs left.\<close>

fun generations ::
  "config \<Rightarrow> real \<Rightarrow> real \<Rightarrow> (point \<Rightarrow> real) \<Rightarrow> nat \<Rightarrow> addr list \<Rightarrow> state
     \<Rightarrow> (error + (addr list \<times> state)) option" where
  "generations cfg el_p to_p function 0 population s = Some (Inr (population, s))"
| "generations cfg el_p to_p function (Suc k) population s =
     (case generation cfg el_p to_p function population s of
        None \<Rightarrow> None
      | Some (Inl e) \<Rightarrow> Some (Inl e)
      | Some (Inr (population', s')) \<Rightarrow> generations cfg el_p to_p function k population' s')"

text \<open>
  \<^verbatim>\<open>genetic_algorithm\<close>: the value returned here is the best fitness that the
  source prints.
\<close>

definition genetic_algorithm ::
  "config \<Rightarrow> real \<Rightarrow> real \<Rightarrow> int \<Rightarrow> int \<Rightarrow> (point \<Rightarrow> real) \<Rightarrow> state \<Rightarrow> (error + real) option" where
  "genetic_algorithm cfg el_p to_p ndim epochs function s =
     (case initialize_population (pop_size cfg) ndim (search_min cfg) (search_max cfg) s of
        (population, s0) \<Rightarrow>
          (case generations cfg el_p to_p function (nat epochs) population s0 of
             None \<Rightarrow> None
           | Some (Inl e) \<Rightarrow> Some (Inl e)
           | Some (Inr (population', s')) \<Rightarrow>
               (case sort_key (\<lambda>a. function (heap s' ! a)) population' of
                  [] \<Rightarrow> Some (Inl IndexError)
                | best # _ \<Rightarrow> Some (Inr (function (heap s' ! best))))))"

subsection \<open>Predicates used to state the properties\<close>

text \<open>Every coordinate of a point lies in the search interval.\<close>

definition in_bounds :: "config \<Rightarrow> point \<Rightarrow> bool" where
  "in_bounds cfg p = (\<forall>x\<in>set p. search_min cfg \<le> x \<and> x \<le> search_max cfg)"

text \<open>Every individual of a population is a list of the heap and lies in bounds.\<close>

definition population_in_bounds :: "config \<Rightarrow> heap \<Rightarrow> addr list \<Rightarrow> bool" where
  "population_in_bounds cfg h population =
     (\<forall>a\<in>set population. a < length h \<and> in_bounds cfg (h ! a))"

subsection \<open>Concrete inputs\<close>

text \<open>
  Configurations, states and tapes on which the properties below are evaluated. The raw
  draw \<open>0\<close> gives \<^verbatim>\<open>random() = 0\<close>, the raw draw \<open>2^52\<close> gives \<open>1/2\<close> and
  the raw draw \<open>2^51\<close> gives \<open>1/4\<close>.
\<close>

definition demo_cfg :: config where
  "demo_cfg = \<lparr>pop_size = 3, search_min = - 5, search_max = 5,
                cross_rate = 1 / 2, mutat_rate = 1 / 4\<rparr>"

definition pair_heap :: heap where
  "pair_heap = [[1, 2, 3], [4, 5, 6]]"

definition recombine_state :: state where
  "recombine_state = \<lparr>heap = pair_heap, rng = tape_of [0, 1]\<rparr>"

definition copy_state :: state where
  "copy_state = \<lparr>heap = pair_heap, rng = tape_of [4503599627370496]\<rparr>"

definition mutate_state :: state where
  "mutate_state = \<lparr>heap = [[1, 2], [7]],
                    rng = tape_of [0, 2251799813685248, 4503599627370496]\<rparr>"

definition quad_heap :: heap where
  "quad_heap = [[0], [1], [2], [3]]"

text \<open>A fitness function other than the reference one: the first coordinate.\<close>

definition first_coordinate :: "point \<Rightarrow> real" where
  "first_coordinate p = (case p of [] \<Rightarrow> 0 | x # _ \<Rightarrow> x)"

text \<open>
  A run of the driver with a population of three points in two dimensions: six draws for
  the initial population, then one generation (one draw for the tournament, two for the
  parents' indices, one that skips recombination, and the draws of the two mutations, the
  first of which mutates its first gene).
\<close>

definition gen_tape :: "nat list" where
  "gen_tape = [0, 0, 1, 4503599627370496, 0, 0, 4503599627370496,
               4503599627370496, 4503599627370496]"

definition start_state :: state where
  "start_state = \<lparr>heap = [],
     rng = tape_of ([4503599627370496, 4503599627370496, 2251799813685248, 2251799813685248,
                     6755399441055744, 6755399441055744] @ gen_tape)\<rparr>"

definition gen_state :: state where
  "gen_state = \<lparr>heap = [[0, 0], [- 5 / 2, - 5 / 2], [5 / 2, 5 / 2]], rng = tape_of gen_tape\<rparr>"

definition end_state :: state where
  "end_state = \<lparr>heap = [[0, 0], [- 5 / 2, - 5 / 2], [5 / 2, 5 / 2], [- 5, - 5 / 2], [5 / 2, 5 / 2]],
                 rng = tape_of []\<rparr>"

section \<open>Properties\<close>

subsection \<open>The random source and crossover\<close>

lemma next_raw_tape_of: "next_raw (tape_of (x # xs)) = (x, tape_of xs)"
  by (auto simp: next_raw_def tape_of_def fun_eq_iff)

lemma random_unit_range: "0 \<le> fst (random_unit g) \<and> fst (random_unit g) < 1"
  by (simp add: random_unit_def next_raw_def)

lemma uniform_unit_nonneg: "0 \<le> fst (uniform 0 1 g)"
  using random_unit_range[of g] by (simp add: uniform_def split: prod.splits)

lemma uniform_bounds:
  assumes "lo \<le> hi"
  shows "lo \<le> fst (uniform lo hi g) \<and> fst (uniform lo hi g) \<le> hi"
proof -
  obtain u g' where u: "random_unit g = (u, g')" by (cases "random_unit g")
  with random_unit_range[of g] have r: "0 \<le> u" "u < 1" by simp_all
  have "0 \<le> (hi - lo) * u" using assms r by simp
  moreover have "(hi - lo) * u \<le> (hi - lo) * 1"
    using assms r by (intro mult_left_mono) simp_all
  ultimately show ?thesis by (simp add: uniform_def u)
qed

lemma randint_ok:
  assumes "a \<le> b"
  shows "\<exists>p. randint a b g = Inr (p, snd (next_raw g)) \<and> a \<le> p \<and> p \<le> b"
proof -
  have "0 < nat (b + 1 - a)" using assms by simp
  then have "g 0 mod nat (b + 1 - a) < nat (b + 1 - a)" by (rule mod_less_divisor)
  then have "int (g 0 mod nat (b + 1 - a)) < b + 1 - a" by linarith
  then show ?thesis using assms
    by (simp add: randint_def next_raw_def)
qed

lemma randint_empty: "b < a \<Longrightarrow> randint a b g = Inl ValueError"
  by (simp add: randint_def)

lemma randint_Inr:
  "randint a b g = Inr (p, g') \<Longrightarrow> a \<le> p \<and> p \<le> b \<and> g' = snd (next_raw g)"
  using randint_ok[of a b g] randint_empty[of b a g] by (cases "a \<le> b") auto

lemma randrange_ok:
  "0 < n \<Longrightarrow> \<exists>r. randrange n g = Inr (r, snd (next_raw g)) \<and> r < nat n"
  by (simp add: randrange_def next_raw_def)

lemma randrange_one: "randrange 1 g = Inr (0, snd (next_raw g))"
  by (simp add: randrange_def next_raw_def)

lemma crossover_loop_map:
  "\<forall>i\<in>set is. i < length pb \<Longrightarrow>
   crossover_loop pa pb pivot is ca cb =
     Inr (ca @ map (\<lambda>i. if int i < pivot then pa ! i else pb ! i) is,
          cb @ map (\<lambda>i. if int i < pivot then pb ! i else pa ! i) is)"
  by (induction "is" arbitrary: ca cb) auto

lemma crossover_loop_short:
  "\<exists>i\<in>set is. \<not> i < length pb \<Longrightarrow> crossover_loop pa pb pivot is ca cb = Inl IndexError"
  by (induction "is" arbitrary: ca cb) auto

lemma crossover_loop_Inr:
  assumes "crossover_loop pa pb pivot is [] [] = Inr (ca, cb)"
  shows "ca = map (\<lambda>i. if int i < pivot then pa ! i else pb ! i) is \<and>
         cb = map (\<lambda>i. if int i < pivot then pb ! i else pa ! i) is \<and>
         (\<forall>i\<in>set is. i < length pb)"
proof (cases "\<forall>i\<in>set is. i < length pb")
  case True
  from crossover_loop_map[OF this, of pa pivot "[]" "[]"] assms show ?thesis using True by simp
next
  case False
  then have "crossover_loop pa pb pivot is [] [] = Inl IndexError"
    by (intro crossover_loop_short) blast
  with assms show ?thesis by simp
qed

lemma crossover_copy:
  assumes "cross_rate cfg \<le> fst (uniform 0 1 (rng s))"
  shows "crossover cfg a b s =
           Inr (fst (deepcopy_pair a b (heap s)),
                \<lparr>heap = snd (deepcopy_pair a b (heap s)), rng = snd (uniform 0 1 (rng s))\<rparr>)"
proof -
  obtain u g1 where u: "uniform 0 1 (rng s) = (u, g1)" by (cases "uniform 0 1 (rng s)")
  obtain ch h' where d: "deepcopy_pair a b (heap s) = (ch, h')"
    by (cases "deepcopy_pair a b (heap s)")
  from assms show ?thesis by (simp add: crossover_def u d)
qed

lemma crossover_recombine:
  assumes "fst (uniform 0 1 (rng s)) < cross_rate cfg"
    and "randint 1 (int (length (heap s ! a)) - 1) (snd (uniform 0 1 (rng s))) = Inr (pivot, g2)"
    and "length (heap s ! a) \<le> length (heap s ! b)"
  shows "crossover cfg a b s =
           Inr ((length (heap s), Suc (length (heap s))),
                \<lparr>heap = heap s @
                   [map (\<lambda>i. if int i < pivot then heap s ! a ! i else heap s ! b ! i)
                      [0..<length (heap s ! a)],
                    map (\<lambda>i. if int i < pivot then heap s ! b ! i else heap s ! a ! i)
                      [0..<length (heap s ! a)]],
                 rng = g2\<rparr>)"
proof -
  obtain u g1 where u: "uniform 0 1 (rng s) = (u, g1)" by (cases "uniform 0 1 (rng s)")
  have "\<forall>i\<in>set [0..<length (heap s ! a)]. i < length (heap s ! b)"
    using assms(3) by auto
  from crossover_loop_map[OF this, of "heap s ! a" pivot "[]" "[]"] assms(1,2)
  show ?thesis by (simp add: crossover_def u)
qed

lemma crossover_cases:
  assumes "crossover cfg a b s = Inr ((ca, cb), s')"
  obtains
    (copy) "cross_rate cfg \<le> fst (uniform 0 1 (rng s))"
      "(ca, cb) = fst (deepcopy_pair a b (heap s))"
      "heap s' = snd (deepcopy_pair a b (heap s))"
  | (recombine) pivot where "fst (uniform 0 1 (rng s)) < cross_rate cfg"
      "1 \<le> pivot" "pivot \<le> int (length (heap s ! a)) - 1"
      "length (heap s ! a) \<le> length (heap s ! b)"
      "ca = length (heap s)" "cb = Suc (length (heap s))"
      "heap s' = heap s @
         [map (\<lambda>i. if int i < pivot then heap s ! a ! i else heap s ! b ! i)
            [0..<length (heap s ! a)],
          map (\<lambda>i. if int i < pivot then heap s ! b ! i else heap s ! a ! i)
            [0..<length (heap s ! a)]]"
proof (cases "cross_rate cfg \<le> fst (uniform 0 1 (rng s))")
  case True
  with crossover_copy[OF True, of a b] assms copy show ?thesis by simp
next
  case False
  obtain u g1 where u: "uniform 0 1 (rng s) = (u, g1)" by (cases "uniform 0 1 (rng s)")
  from False u have lt: "u < cross_rate cfg" by simp
  from assms lt u obtain pivot g2 where
    r: "randint 1 (int (length (heap s ! a)) - 1) g1 = Inr (pivot, g2)"
    by (auto simp: crossover_def split: sum.splits)
  from assms lt u r obtain child_a child_b where
    l: "crossover_loop (heap s ! a) (heap s ! b) pivot [0..<length (heap s ! a)] [] []
          = Inr (child_a, child_b)"
    by (auto simp: crossover_def split: sum.splits)
  from assms lt u r l have res: "ca = length (heap s)" "cb = Suc (length (heap s))"
    "heap s' = heap s @ [child_a, child_b]"
    by (auto simp: crossover_def)
  from crossover_loop_Inr[OF l] have
    c: "child_a = map (\<lambda>i. if int i < pivot then heap s ! a ! i else heap s ! b ! i)
            [0..<length (heap s ! a)]"
       "child_b = map (\<lambda>i. if int i < pivot then heap s ! b ! i else heap s ! a ! i)
            [0..<length (heap s ! a)]"
    and le: "\<forall>i\<in>set [0..<length (heap s ! a)]. i < length (heap s ! b)"
    by simp_all
  have le': "length (heap s ! a) \<le> length (heap s ! b)"
  proof (cases "length (heap s ! a)")
    case 0 then show ?thesis by simp
  next
    case (Suc n)
    with le have "n < length (heap s ! b)" by simp
    with Suc show ?thesis by simp
  qed
  from randint_Inr[OF r] have "1 \<le> pivot" "pivot \<le> int (length (heap s ! a)) - 1" by simp_all
  with recombine[of pivot] lt u le' res c show ?thesis by simp
qed

lemma crossover_recombined_cells:
  assumes "crossover cfg a b s = Inr ((ca, cb), s')"
    and "fst (uniform 0 1 (rng s)) < cross_rate cfg"
  shows "\<exists>pivot. 1 \<le> pivot \<and> pivot \<le> int (length (heap s ! a)) - 1 \<and>
      length (heap s ! a) \<le> length (heap s ! b) \<and>
      ca = length (heap s) \<and> cb = Suc (length (heap s)) \<and>
      length (heap s') = Suc (Suc (length (heap s))) \<and>
      heap s' ! ca = map (\<lambda>i. if int i < pivot then heap s ! a ! i else heap s ! b ! i)
                       [0..<length (heap s ! a)] \<and>
      heap s' ! cb = map (\<lambda>i. if int i < pivot then heap s ! b ! i else heap s ! a ! i)
                       [0..<length (heap s ! a)]"
  using assms(1)
proof (cases rule: crossover_cases)
  case copy
  with assms(2) show ?thesis by simp
next
  case (recombine pivot)
  then show ?thesis by (intro exI[of _ pivot]) (simp add: nth_append)
qed

lemma deepcopy_pair_fresh:
  assumes "deepcopy_pair a b h = ((ca, cb), h')"
  shows "length h \<le> ca \<and> ca < length h' \<and> length h \<le> cb \<and> cb < length h' \<and>
         length h < length h' \<and> (\<forall>x < length h. h' ! x = h ! x) \<and>
         h' ! ca = h ! a \<and> h' ! cb = h ! b"
  using assms by (auto simp: deepcopy_pair_def nth_append split: if_splits)

lemma next_raw_tape_of_Nil: "next_raw (tape_of []) = (0, tape_of [])"
  by (auto simp: next_raw_def tape_of_def fun_eq_iff)

subsection \<open>Mutation works in place, on one list\<close>

lemma mutate_gene_heap_length [simp]:
  "length (heap (mutate_gene cfg c lo hi i s)) = length (heap s)"
  by (simp add: mutate_gene_def Let_def split: prod.splits)

lemma mutate_gene_other:
  "a \<noteq> c \<Longrightarrow> heap (mutate_gene cfg c lo hi i s) ! a = heap s ! a"
  by (simp add: mutate_gene_def Let_def split: prod.splits)

lemma mutate_gene_cell_length [simp]:
  "length (heap (mutate_gene cfg c lo hi i s) ! c) = length (heap s ! c)"
  by (cases "c < length (heap s)")
     (simp_all add: mutate_gene_def Let_def list_update_beyond split: prod.splits)

lemma mutate_gene_coord_other:
  "j \<noteq> i \<Longrightarrow> heap (mutate_gene cfg c lo hi i s) ! c ! j = heap s ! c ! j"
  by (cases "c < length (heap s)")
     (simp_all add: mutate_gene_def Let_def list_update_beyond split: prod.splits)

lemma mutate_gene_coord:
  assumes "c < length (heap s)" "i < length (heap s ! c)"
  shows "heap (mutate_gene cfg c lo hi i s) ! c ! i =
     (if fst (uniform 0 1 (rng s)) \<le> mutat_rate cfg
      then min (max (heap s ! c ! i
                      + fst (uniform (lo * 0.5) (hi * 0.5) (snd (uniform 0 1 (rng s))))) lo) hi
      else heap s ! c ! i)"
  using assms by (simp add: mutate_gene_def Let_def split: prod.splits)


lemma mutation_prefix_frame:
  "length (heap (fold (mutate_gene cfg c lo hi) [0..<k] s)) = length (heap s) \<and>
   (\<forall>a. a \<noteq> c \<longrightarrow> heap (fold (mutate_gene cfg c lo hi) [0..<k] s) ! a = heap s ! a) \<and>
   length (heap (fold (mutate_gene cfg c lo hi) [0..<k] s) ! c) = length (heap s ! c) \<and>
   (\<forall>j. k \<le> j \<longrightarrow> heap (fold (mutate_gene cfg c lo hi) [0..<k] s) ! c ! j = heap s ! c ! j)"
proof (induction k)
  case 0
  show ?case by simp
next
  case (Suc k)
  then show ?case by (simp add: mutate_gene_other mutate_gene_coord_other)
qed

lemma mutation_prefix_settled:
  "j < k \<Longrightarrow>
   heap (fold (mutate_gene cfg c lo hi) [0..<k] s) ! c ! j =
   heap (mutate_gene cfg c lo hi j (fold (mutate_gene cfg c lo hi) [0..<j] s)) ! c ! j"
proof (induction k)
  case 0
  then show ?case by simp
next
  case (Suc k)
  show ?case
  proof (cases "j = k")
    case True
    then show ?thesis by simp
  next
    case False
    with Suc have "j < k" by simp
    with Suc.IH False show ?thesis by (simp add: mutate_gene_coord_other)
  qed
qed

lemma mutation_result:
  "mutation cfg c lo hi s = (c', s') \<Longrightarrow>
     c' = c \<and> s' = fold (mutate_gene cfg c lo hi) [0..<length (heap s ! c)] s"
  by (auto simp: mutation_def)

lemma mutation_heap_length [simp]:
  "length (heap (snd (mutation cfg c lo hi s))) = length (heap s)"
  by (simp add: mutation_def mutation_prefix_frame)

lemma mutation_other:
  "a \<noteq> c \<Longrightarrow> heap (snd (mutation cfg c lo hi s)) ! a = heap s ! a"
  by (simp add: mutation_def mutation_prefix_frame)

lemma mutation_fst [simp]: "fst (mutation cfg c lo hi s) = c"
  by (simp add: mutation_def)

lemma mutation_cell_length [simp]:
  "length (heap (snd (mutation cfg c lo hi s)) ! c) = length (heap s ! c)"
  by (simp add: mutation_def mutation_prefix_frame)

lemma mutation_coord:
  assumes "c < length (heap s)" "i < length (heap s ! c)"
  shows "heap (snd (mutation cfg c lo hi s)) ! c ! i =
     (if fst (uniform 0 1 (rng (fold (mutate_gene cfg c lo hi) [0..<i] s))) \<le> mutat_rate cfg
      then min (max (heap s ! c ! i
             + fst (uniform (lo * 0.5) (hi * 0.5)
                 (snd (uniform 0 1 (rng (fold (mutate_gene cfg c lo hi) [0..<i] s)))))) lo) hi
      else heap s ! c ! i)"
proof -
  let ?t = "fold (mutate_gene cfg c lo hi) [0..<i] s"
  have t: "length (heap ?t) = length (heap s)" "length (heap ?t ! c) = length (heap s ! c)"
    "heap ?t ! c ! i = heap s ! c ! i"
    using mutation_prefix_frame[of cfg c lo hi i s] by simp_all
  have "heap (snd (mutation cfg c lo hi s)) ! c ! i = heap (mutate_gene cfg c lo hi i ?t) ! c ! i"
    using assms(2) by (simp add: mutation_def mutation_prefix_settled)
  also have "\<dots> = (if fst (uniform 0 1 (rng ?t)) \<le> mutat_rate cfg
      then min (max (heap ?t ! c ! i
             + fst (uniform (lo * 0.5) (hi * 0.5) (snd (uniform 0 1 (rng ?t))))) lo) hi
      else heap ?t ! c ! i)"
    using assms t by (intro mutate_gene_coord) simp_all
  finally show ?thesis using t by simp
qed

lemma mutation_coord_bounds:
  assumes "lo \<le> hi" "c < length (heap s)" "i < length (heap s ! c)"
    "lo \<le> heap s ! c ! i" "heap s ! c ! i \<le> hi"
  shows "lo \<le> heap (snd (mutation cfg c lo hi s)) ! c ! i \<and>
         heap (snd (mutation cfg c lo hi s)) ! c ! i \<le> hi"
  using assms by (simp add: mutation_coord)

lemma mutation_at_frame:
  "length (heap (mutation_at cfg c lo hi k s)) = length (heap s) \<and>
   (\<forall>a. a \<noteq> c \<longrightarrow> heap (mutation_at cfg c lo hi k s) ! a = heap s ! a) \<and>
   length (heap (mutation_at cfg c lo hi k s) ! c) = length (heap s ! c) \<and>
   (\<forall>j. k \<le> j \<longrightarrow> heap (mutation_at cfg c lo hi k s) ! c ! j = heap s ! c ! j)"
  unfolding mutation_at_def by (rule mutation_prefix_frame)

lemma mutation_coord_draw:
  assumes "c < length (heap s)" "i < length (heap s ! c)"
  shows "heap (snd (mutation cfg c lo hi s)) ! c ! i =
     (if gene_draw cfg c lo hi i s \<le> mutat_rate cfg
      then min (max (heap s ! c ! i + gene_diff cfg c lo hi i s) lo) hi
      else heap s ! c ! i)"
  using mutation_coord[OF assms, of cfg lo hi]
  by (simp add: gene_draw_def gene_diff_def mutation_at_def)

subsection \<open>Selection\<close>

lemma elite_loop_ok:
  "\<forall>i\<in>set is. i < length population \<Longrightarrow>
   elite_loop population is elites = Inr (elites @ map ((!) population) is)"
  by (induction "is" arbitrary: elites) auto

lemma elite_loop_fail:
  "\<exists>i\<in>set is. \<not> i < length population \<Longrightarrow> elite_loop population is elites = Inl IndexError"
  by (induction "is" arbitrary: elites) auto

lemma map_nth_upt_take:
  "k \<le> length xs \<Longrightarrow> map ((!) xs) [0..<k] = take k xs"
  by (rule nth_equalityI) simp_all

lemma elite_loop_upt:
  "elite_loop population [0..<k] [] =
     (if k \<le> length population then Inr (take k population) else Inl IndexError)"
proof (cases "k \<le> length population")
  case True
  then have "\<forall>i\<in>set [0..<k]. i < length population" by auto
  from elite_loop_ok[OF this, of "[]"] True show ?thesis
    by (simp add: map_nth_upt_take)
next
  case False
  then have "\<exists>i\<in>set [0..<k]. \<not> i < length population"
    by (intro bexI[of _ "length population"]) auto
  from elite_loop_fail[OF this, of "[]"] False show ?thesis by simp
qed

lemma elite_selection_closed:
  "elite_selection population percent =
     (if nat \<lceil>real (length population) * percent\<rceil> \<le> length population
      then Inr (take (nat \<lceil>real (length population) * percent\<rceil>) population)
      else Inl IndexError)"
  unfolding elite_selection_def by (rule elite_loop_upt)

lemma ceil_percent_bounds:
  assumes "0 < n" "0 < percent" "percent \<le> 1"
  shows "1 \<le> \<lceil>real n * percent\<rceil> \<and> \<lceil>real n * percent\<rceil> \<le> int n"
proof -
  have "0 < real n * percent" using assms by simp
  then have "0 < \<lceil>real n * percent\<rceil>" by simp
  moreover have "real n * percent \<le> real n * 1"
    using assms by (intro mult_left_mono) simp_all
  then have "\<lceil>real n * percent\<rceil> \<le> \<lceil>real n\<rceil>" by (intro ceiling_mono) simp
  ultimately show ?thesis by simp
qed

lemma list_pop_in_range:
  assumes "0 \<le> i" "i < int (length xs)"
  shows "list_pop xs i = Inr (xs ! nat i, take (nat i) xs @ drop (Suc (nat i)) xs)"
  using assms by (simp add: list_pop_def Let_def)

lemma mset_without_nth:
  assumes "i < length xs"
  shows "mset (take i xs @ drop (Suc i) xs) + {#xs ! i#} = mset xs"
proof -
  have "mset xs = mset (take i xs @ xs ! i # drop (Suc i) xs)"
    using id_take_nth_drop[OF assms] by simp
  then show ?thesis by simp
qed

lemma subseq_without_nth: "subseq (take i xs @ drop (Suc i) xs) xs"
proof (cases "i < length xs")
  case True
  have "subseq (take i xs @ drop (Suc i) xs) (take i xs @ xs ! i # drop (Suc i) xs)"
    by (auto simp: subseq_append')
  with id_take_nth_drop[OF True] show ?thesis by simp
next
  case False
  then show ?thesis by simp
qed

lemma tournament_loop_ok:
  "k \<le> length population \<Longrightarrow>
   \<exists>t population' g'.
     tournament_loop k population tournament g = Inr (tournament @ t, population', g') \<and>
     length t = k \<and> length population' = length population - k \<and>
     mset t + mset population' = mset population \<and> subseq population' population"
proof (induction k arbitrary: population tournament g)
  case 0
  then show ?case by simp
next
  case (Suc k)
  from Suc.prems have "(0::int) \<le> int (length population) - 1" by linarith
  from randint_ok[OF this, of g] obtain idx where
    r: "randint 0 (int (length population) - 1) g = Inr (idx, snd (next_raw g))"
    and idx: "0 \<le> idx" "idx \<le> int (length population) - 1" by blast
  let ?e = "population ! nat idx"
  let ?p = "take (nat idx) population @ drop (Suc (nat idx)) population"
  have i: "nat idx < length population" using idx by simp
  have p: "list_pop population idx = Inr (?e, ?p)"
    using idx by (intro list_pop_in_range) simp_all
  have len: "length ?p = length population - 1" using i by simp
  with Suc.prems have "k \<le> length ?p" by simp
  from Suc.IH[OF this, of "tournament @ [?e]" "snd (next_raw g)"] obtain t population' g' where
    l: "tournament_loop k ?p (tournament @ [?e]) (snd (next_raw g))
          = Inr ((tournament @ [?e]) @ t, population', g')"
    and t: "length t = k" "length population' = length ?p - k"
      "mset t + mset population' = mset ?p" "subseq population' ?p"
    by blast
  have "tournament_loop (Suc k) population tournament g
          = Inr (tournament @ (?e # t), population', g')"
    using r p l by simp
  moreover have "mset (?e # t) + mset population' = mset population"
    using t(3) mset_without_nth[OF i] by (simp add: ac_simps)
  moreover have "subseq population' population"
    using t(4) subseq_without_nth[of "nat idx" population] by (rule subseq_order.order_trans)
  moreover have "length (?e # t) = Suc k" "length population' = length population - Suc k"
    using t(1,2) len by simp_all
  ultimately show ?case by blast
qed

lemma sort_key_head_minimal:
  assumes "sort_key f xs = w # rest"
  shows "w \<in> set xs \<and> (\<forall>e\<in>set xs. f w \<le> f e)"
proof -
  have "set (sort_key f xs) = set xs" by simp
  with assms have s: "set xs = insert w (set rest)" by simp
  have "sorted (map f (sort_key f xs))" by (rule sorted_sort_key)
  with assms have "\<forall>e\<in>set rest. f w \<le> f e" by simp
  with s show ?thesis by simp
qed

lemma tournament_loop_Inr:
  "tournament_loop k population tournament g = Inr (t', population', g') \<Longrightarrow>
   mset t' + mset population' = mset tournament + mset population"
proof (induction k arbitrary: population tournament g)
  case 0
  then show ?case by simp
next
  case (Suc k)
  from Suc.prems obtain idx g1 where
    r: "randint 0 (int (length population) - 1) g = Inr (idx, g1)"
    by (cases "randint 0 (int (length population) - 1) g") auto
  from randint_Inr[OF r] have idx: "0 \<le> idx" "idx < int (length population)" by simp_all
  let ?e = "population ! nat idx"
  let ?p = "take (nat idx) population @ drop (Suc (nat idx)) population"
  have p: "list_pop population idx = Inr (?e, ?p)"
    using idx by (rule list_pop_in_range)
  from Suc.prems r p have "tournament_loop k ?p (tournament @ [?e]) g1 = Inr (t', population', g')"
    by simp
  from Suc.IH[OF this] have "mset t' + mset population' = mset (tournament @ [?e]) + mset ?p" .
  also have "\<dots> = mset tournament + (mset ?p + {#?e#})" by simp
  also have "mset ?p + {#?e#} = mset population"
    using idx by (intro mset_without_nth) simp
  finally show ?case .
qed

lemma tournament_selection_winner:
  assumes "tournament_selection h population percent g = Inr (w, rest, g')"
  shows "w \<in> set population"
proof -
  from assms obtain t where
    l: "tournament_loop (nat \<lceil>real (length population) * percent\<rceil>) population [] g
          = Inr (t, rest, g')"
    and s: "\<exists>ws. sort_key (\<lambda>a. styb_tang (h ! a)) t = w # ws"
    by (auto simp: tournament_selection_def split: sum.splits list.splits)
  from s obtain ws where "sort_key (\<lambda>a. styb_tang (h ! a)) t = w # ws" by blast
  from sort_key_head_minimal[OF this] have "w \<in> set t" by simp
  then have "w \<in># mset t + mset rest" by simp
  with tournament_loop_Inr[OF l] show ?thesis by simp
qed

lemma tournament_selection_ok:
  assumes "population \<noteq> []" "0 < percent" "percent \<le> 1"
  shows "\<exists>w rest g'. tournament_selection h population percent g = Inr (w, rest, g')"
proof -
  let ?k = "nat \<lceil>real (length population) * percent\<rceil>"
  have n: "0 < length population" using assms(1) by simp
  have k: "1 \<le> ?k" "?k \<le> length population"
    using ceil_percent_bounds[OF n assms(2,3)] by linarith+
  from tournament_loop_ok[OF k(2), of "[]" g] obtain t population' g' where
    l: "tournament_loop ?k population [] g = Inr (t, population', g')" and t: "length t = ?k"
    by auto
  from t k(1) have "sort_key (\<lambda>a. styb_tang (h ! a)) t \<noteq> []"
    by (metis length_sort list.size(3) not_one_le_zero)
  then obtain w rest where "sort_key (\<lambda>a. styb_tang (h ! a)) t = w # rest"
    by (cases "sort_key (\<lambda>a. styb_tang (h ! a)) t") auto
  with l show ?thesis by (simp add: tournament_selection_def)
qed

subsection \<open>The loop of evolve\<close>

text \<open>
  An induction rule for the runs of the loop that return a population: the loop is done,
  or it drew one index twice and tries again, or it appends two children and goes on.
\<close>

lemma evolve_loop_induct [consumes 1, case_names finished retry step]:
  assumes run: "evolve_loop cfg mp newp s = Some (Inr (pop', s'))"
    and finished: "\<And>newp s. \<not> int (length newp) < pop_size cfg \<Longrightarrow> P newp s newp s"
    and retry: "\<And>newp s i g1 g2 pop' s'.
        int (length newp) < pop_size cfg \<Longrightarrow>
        randrange (int (length mp)) (rng s) = Inr (i, g1) \<Longrightarrow>
        randrange (int (length mp)) g1 = Inr (i, g2) \<Longrightarrow>
        evolve_loop cfg mp newp \<lparr>heap = heap s, rng = g2\<rparr> = Some (Inr (pop', s')) \<Longrightarrow>
        P newp \<lparr>heap = heap s, rng = g2\<rparr> pop' s' \<Longrightarrow> P newp s pop' s'"
    and step: "\<And>newp s i j g1 g2 ca cb s1 s2 s3 pop' s'.
        int (length newp) < pop_size cfg \<Longrightarrow>
        randrange (int (length mp)) (rng s) = Inr (i, g1) \<Longrightarrow>
        randrange (int (length mp)) g1 = Inr (j, g2) \<Longrightarrow>
        i \<noteq> j \<Longrightarrow>
        crossover cfg (mp ! i) (mp ! j) \<lparr>heap = heap s, rng = g2\<rparr> = Inr ((ca, cb), s1) \<Longrightarrow>
        s2 = snd (mutation cfg ca (search_min cfg) (search_max cfg) s1) \<Longrightarrow>
        s3 = snd (mutation cfg cb (search_min cfg) (search_max cfg) s2) \<Longrightarrow>
        evolve_loop cfg mp (newp @ [ca, cb]) s3 = Some (Inr (pop', s')) \<Longrightarrow>
        P (newp @ [ca, cb]) s3 pop' s' \<Longrightarrow> P newp s pop' s'"
  shows "P newp s pop' s'"
proof -
  define Q where "Q = (\<lambda>(c::config) (m::addr list) (n::addr list) (st::state)
      (y::error + (addr list \<times> state)).
        c = cfg \<longrightarrow> m = mp \<longrightarrow> (\<forall>pop' s'. y = Inr (pop', s') \<longrightarrow>
          evolve_loop cfg mp n st = Some (Inr (pop', s')) \<and> P n st pop' s'))"
  have "Q cfg mp newp s (Inr (pop', s'))"
  proof (rule evolve_loop.raw_induct[where P = Q, OF _ run], goal_cases)
    case (1 f c m n st y)
    note IH = 1(1) and eq = 1(2)
    show ?case
      unfolding Q_def
    proof (intro impI allI)
      fix pop' s'
      assume c: "c = cfg" and m: "m = mp" and y: "y = Inr (pop', s')"
      show "evolve_loop cfg mp n st = Some (Inr (pop', s')) \<and> P n st pop' s'"
      proof (cases "int (length n) < pop_size cfg")
        case False
        with eq c y have "pop' = n" "s' = st" by simp_all
        with False finished[of n st] show ?thesis
          by (subst evolve_loop.simps) simp
      next
        case True
        from eq True c m y obtain i g1 where
          r1: "randrange (int (length mp)) (rng st) = Inr (i, g1)"
          by (cases "randrange (int (length mp)) (rng st)") auto
        from eq True c m y r1 obtain j g2 where
          r2: "randrange (int (length mp)) g1 = Inr (j, g2)"
          by (cases "randrange (int (length mp)) g1") auto
        show ?thesis
        proof (cases "i = j")
          case same: True
          with eq True c m y r1 r2
          have "f cfg mp n \<lparr>heap = heap st, rng = g2\<rparr> = Some (Inr (pop', s'))" by simp
          from IH[OF this] have
            ih: "evolve_loop cfg mp n \<lparr>heap = heap st, rng = g2\<rparr> = Some (Inr (pop', s'))"
              "P n \<lparr>heap = heap st, rng = g2\<rparr> pop' s'" by (simp_all add: Q_def)
          have "evolve_loop cfg mp n st = Some (Inr (pop', s'))"
            using True r1 r2 same ih(1) by (subst evolve_loop.simps) simp
          moreover have "P n st pop' s'"
            using retry[OF True r1 _ ih] r2 same by simp
          ultimately show ?thesis by simp
        next
          case diff: False
          from eq True c m y r1 r2 diff obtain ca cb s1 where
            x: "crossover cfg (mp ! i) (mp ! j) \<lparr>heap = heap st, rng = g2\<rparr> = Inr ((ca, cb), s1)"
            by (cases "crossover cfg (mp ! i) (mp ! j) \<lparr>heap = heap st, rng = g2\<rparr>") auto
          define s2 where "s2 = snd (mutation cfg ca (search_min cfg) (search_max cfg) s1)"
          define s3 where "s3 = snd (mutation cfg cb (search_min cfg) (search_max cfg) s2)"
          have m1: "mutation cfg ca (search_min cfg) (search_max cfg) s1 = (ca, s2)"
            and m2: "mutation cfg cb (search_min cfg) (search_max cfg) s2 = (cb, s3)"
            by (simp_all add: s2_def s3_def mutation_def)
          from eq True c m y r1 r2 diff x m1 m2
          have "f cfg mp (n @ [ca, cb]) s3 = Some (Inr (pop', s'))" by simp
          from IH[OF this] have
            ih: "evolve_loop cfg mp (n @ [ca, cb]) s3 = Some (Inr (pop', s'))"
              "P (n @ [ca, cb]) s3 pop' s'" by (simp_all add: Q_def)
          have "evolve_loop cfg mp n st = Some (Inr (pop', s'))"
            using True r1 r2 diff x m1 m2 ih(1) by (subst evolve_loop.simps) simp
          moreover have "P n st pop' s'"
            using step[OF True r1 r2 diff x s2_def s3_def ih] .
          ultimately show ?thesis by simp
        qed
      qed
    qed
  qed
  then show ?thesis by (simp add: Q_def)
qed

lemma evolve_loop_finished:
  "\<not> int (length newp) < pop_size cfg \<Longrightarrow> evolve_loop cfg mp newp s = Some (Inr (newp, s))"
  by (subst evolve_loop.simps) simp

lemma crossover_frame:
  assumes "crossover cfg a b s = Inr ((ca, cb), s1)"
  shows "length (heap s) \<le> ca \<and> ca < length (heap s1) \<and>
         length (heap s) \<le> cb \<and> cb < length (heap s1) \<and>
         (\<forall>x < length (heap s). heap s1 ! x = heap s ! x)"
  using assms
proof (cases rule: crossover_cases)
  case copy
  then have "deepcopy_pair a b (heap s) = ((ca, cb), heap s1)"
    by (metis prod.collapse)
  from deepcopy_pair_fresh[OF this] show ?thesis by simp
next
  case (recombine pivot)
  then show ?thesis by (simp add: nth_append)
qed

lemma in_bounds_nth:
  "in_bounds cfg p \<longleftrightarrow> (\<forall>i < length p. search_min cfg \<le> p ! i \<and> p ! i \<le> search_max cfg)"
  by (simp add: in_bounds_def all_set_conv_all_nth)

lemma crossover_in_bounds:
  assumes "crossover cfg a b s = Inr ((ca, cb), s1)"
    and "in_bounds cfg (heap s ! a)" "in_bounds cfg (heap s ! b)"
  shows "in_bounds cfg (heap s1 ! ca) \<and> in_bounds cfg (heap s1 ! cb)"
  using assms(1)
proof (cases rule: crossover_cases)
  case copy
  then have "deepcopy_pair a b (heap s) = ((ca, cb), heap s1)"
    by (metis prod.collapse)
  from deepcopy_pair_fresh[OF this] assms(2,3) show ?thesis by simp
next
  case (recombine pivot)
  have "search_min cfg \<le> heap s ! a ! i \<and> heap s ! a ! i \<le> search_max cfg \<and>
        search_min cfg \<le> heap s ! b ! i \<and> heap s ! b ! i \<le> search_max cfg"
    if "i < length (heap s ! a)" for i
    using that assms(2,3) recombine(4) by (simp add: in_bounds_nth)
  then show ?thesis
    using recombine by (simp add: in_bounds_nth nth_append)
qed

lemma mutation_in_bounds:
  assumes "search_min cfg \<le> search_max cfg" "c < length (heap s)"
    and "in_bounds cfg (heap s ! c)"
  shows "in_bounds cfg (heap (snd (mutation cfg c (search_min cfg) (search_max cfg) s)) ! c)"
  using assms by (simp add: in_bounds_nth mutation_coord_bounds)

text \<open>One productive iteration of the loop: crossover, then the two mutations.\<close>

lemma evolve_step_frame:
  assumes "crossover cfg a b s = Inr ((ca, cb), s1)"
    and "s2 = snd (mutation cfg ca lo hi s1)"
    and "s3 = snd (mutation cfg cb lo hi s2)"
  shows "length (heap s) \<le> ca \<and> ca < length (heap s3) \<and>
         length (heap s) \<le> cb \<and> cb < length (heap s3) \<and>
         length (heap s) \<le> length (heap s3) \<and>
         (\<forall>x < length (heap s). heap s3 ! x = heap s ! x)"
proof -
  note f = crossover_frame[OF assms(1)]
  have l: "length (heap s3) = length (heap s1)" by (simp add: assms(2,3))
  have "heap s3 ! x = heap s ! x" if "x < length (heap s)" for x
  proof -
    from that f have "x \<noteq> ca" "x \<noteq> cb" by auto
    then have "heap s3 ! x = heap s1 ! x" by (simp add: assms(2,3) mutation_other)
    with f that show ?thesis by simp
  qed
  with f l show ?thesis by simp
qed

lemma evolve_step_in_bounds:
  assumes "crossover cfg a b s = Inr ((ca, cb), s1)"
    and "s2 = snd (mutation cfg ca (search_min cfg) (search_max cfg) s1)"
    and "s3 = snd (mutation cfg cb (search_min cfg) (search_max cfg) s2)"
    and "search_min cfg \<le> search_max cfg"
    and "in_bounds cfg (heap s ! a)" "in_bounds cfg (heap s ! b)"
  shows "in_bounds cfg (heap s3 ! ca) \<and> in_bounds cfg (heap s3 ! cb)"
proof -
  note f = crossover_frame[OF assms(1)]
  note b1 = crossover_in_bounds[OF assms(1,5,6)]
  have l2: "length (heap s2) = length (heap s1)" by (simp add: assms(2))
  have a2: "in_bounds cfg (heap s2 ! ca)"
    unfolding assms(2) using assms(4) f b1 by (intro mutation_in_bounds) simp_all
  have b2: "in_bounds cfg (heap s2 ! cb)"
  proof (cases "cb = ca")
    case True
    with a2 show ?thesis by simp
  next
    case False
    then have "heap s2 ! cb = heap s1 ! cb" by (simp add: assms(2) mutation_other)
    with b1 show ?thesis by simp
  qed
  have b3: "in_bounds cfg (heap s3 ! cb)"
    unfolding assms(3) using assms(4) f b2 l2 by (intro mutation_in_bounds) simp_all
  have a3: "in_bounds cfg (heap s3 ! ca)"
  proof (cases "ca = cb")
    case True
    with b3 show ?thesis by simp
  next
    case False
    then have "heap s3 ! ca = heap s2 ! ca" by (simp add: assms(3) mutation_other)
    with a2 show ?thesis by simp
  qed
  from a3 b3 show ?thesis by simp
qed

lemma randrange_Inr:
  "randrange n g = Inr (r, g') \<Longrightarrow> 0 < n \<and> r < nat n \<and> g' = snd (next_raw g)"
  by (auto simp: randrange_def next_raw_def split: if_splits)

lemma evolve_loop_frame:
  assumes "evolve_loop cfg mp newp s = Some (Inr (pop', s'))"
  shows "length (heap s) \<le> length (heap s') \<and>
         (\<forall>x < length (heap s). heap s' ! x = heap s ! x)"
  using assms
proof (induction rule: evolve_loop_induct)
  case (finished newp s)
  show ?case by simp
next
  case (retry newp s i g1 g2 pop' s')
  then show ?case by simp
next
  case (step newp s i j g1 g2 ca cb s1 s2 s3 pop' s')
  from evolve_step_frame[OF step(5,6,7)] have
    "length (heap s) \<le> length (heap s3)" "\<forall>x < length (heap s). heap s3 ! x = heap s ! x"
    by simp_all
  with step.IH show ?case by auto
qed

lemma evolve_loop_population:
  assumes "evolve_loop cfg mp newp s = Some (Inr (pop', s'))"
  shows "\<exists>children. pop' = newp @ children \<and>
           (\<forall>c\<in>set children. length (heap s) \<le> c \<and> c < length (heap s'))"
  using assms
proof (induction rule: evolve_loop_induct)
  case (finished newp s)
  show ?case by simp
next
  case (retry newp s i g1 g2 pop' s')
  then show ?case by simp
next
  case (step newp s i j g1 g2 ca cb s1 s2 s3 pop' s')
  from step.IH obtain children where
    c: "pop' = (newp @ [ca, cb]) @ children"
      "\<forall>c\<in>set children. length (heap s3) \<le> c \<and> c < length (heap s')" by blast
  from evolve_step_frame[OF step(5,6,7)] have
    f: "length (heap s) \<le> ca" "ca < length (heap s3)" "length (heap s) \<le> cb"
      "cb < length (heap s3)" "length (heap s) \<le> length (heap s3)"
    by simp_all
  from evolve_loop_frame[OF step(8)] have g: "length (heap s3) \<le> length (heap s')" by simp
  have "pop' = newp @ (ca # cb # children)" using c(1) by simp
  moreover have "\<forall>c\<in>set (ca # cb # children). length (heap s) \<le> c \<and> c < length (heap s')"
    using c(2) f g by auto
  ultimately show ?case by blast
qed

lemma evolve_loop_length:
  assumes "evolve_loop cfg mp newp s = Some (Inr (pop', s'))"
  shows "(int (length newp) \<le> pop_size cfg \<longrightarrow>
            int (length pop') = pop_size cfg + (pop_size cfg - int (length newp)) mod 2) \<and>
         (pop_size cfg \<le> int (length newp) \<longrightarrow> pop' = newp)"
  using assms
proof (induction rule: evolve_loop_induct)
  case (finished newp s)
  then show ?case by auto
next
  case (retry newp s i g1 g2 pop' s')
  then show ?case by simp
next
  case (step newp s i j g1 g2 ca cb s1 s2 s3 pop' s')
  show ?case
  proof (cases "int (length newp) + 2 \<le> pop_size cfg")
    case True
    with step.IH have "int (length pop')
        = pop_size cfg + (pop_size cfg - (int (length newp) + 2)) mod 2"
      by (simp add: add.commute)
    also have "(pop_size cfg - (int (length newp) + 2)) mod 2
        = (pop_size cfg - int (length newp)) mod 2" by presburger
    finally show ?thesis using step(1) by simp
  next
    case False
    with step(1) have e: "int (length newp) = pop_size cfg - 1" by simp
    then have "pop_size cfg \<le> int (length (newp @ [ca, cb]))" by simp
    with step.IH have "pop' = newp @ [ca, cb]" by blast
    with e show ?thesis by simp
  qed
qed

lemma evolve_loop_bounds:
  assumes "evolve_loop cfg mp newp s = Some (Inr (pop', s'))"
    and "search_min cfg \<le> search_max cfg"
  shows "population_in_bounds cfg (heap s) (mp @ newp) \<longrightarrow>
         population_in_bounds cfg (heap s') (mp @ pop')"
  using assms(1)
proof (induction rule: evolve_loop_induct)
  case (finished newp s)
  show ?case by simp
next
  case (retry newp s i g1 g2 pop' s')
  then show ?case by simp
next
  case (step newp s i j g1 g2 ca cb s1 s2 s3 pop' s')
  show ?case
  proof
    assume inv: "population_in_bounds cfg (heap s) (mp @ newp)"
    from randrange_Inr[OF step(2)] randrange_Inr[OF step(3)]
    have ij: "i < length mp" "j < length mp" by simp_all
    then have "mp ! i \<in> set mp" "mp ! j \<in> set mp" by simp_all
    with inv have par: "in_bounds cfg (heap s ! (mp ! i))" "in_bounds cfg (heap s ! (mp ! j))"
      by (simp_all add: population_in_bounds_def)
    have x: "crossover cfg (mp ! i) (mp ! j) \<lparr>heap = heap s, rng = g2\<rparr> = Inr ((ca, cb), s1)"
      by (rule step(5))
    from evolve_step_frame[OF x step(6,7)] have
      f: "ca < length (heap s3)" "cb < length (heap s3)" "length (heap s) \<le> length (heap s3)"
        "\<forall>x < length (heap s). heap s3 ! x = heap s ! x"
      by simp_all
    from evolve_step_in_bounds[OF x step(6,7) assms(2)] par
    have ch: "in_bounds cfg (heap s3 ! ca)" "in_bounds cfg (heap s3 ! cb)" by simp_all
    have old: "a < length (heap s3) \<and> in_bounds cfg (heap s3 ! a)"
      if "a \<in> set mp \<union> set newp" for a
    proof -
      from inv that have "a < length (heap s)" "in_bounds cfg (heap s ! a)"
        by (auto simp: population_in_bounds_def)
      with f show ?thesis by simp
    qed
    have "population_in_bounds cfg (heap s3) (mp @ newp @ [ca, cb])"
      using old f ch by (auto simp: population_in_bounds_def)
    with step.IH show "population_in_bounds cfg (heap s') (mp @ pop')" by simp
  qed
qed

text \<open>With one entry in the mating pool both indices are always 0: the loop never returns.\<close>

lemma evolve_loop_singleton_diverges:
  assumes "length mp = 1" "int (length newp) < pop_size cfg"
  shows "evolve_loop cfg mp newp s = None"
proof (rule ccontr)
  assume "evolve_loop cfg mp newp s \<noteq> None"
  then obtain y where run: "evolve_loop cfg mp newp s = Some y" by blast
  have "\<not> (length mp = 1 \<and> int (length newp) < pop_size cfg)"
  proof (rule evolve_loop.raw_induct[where
        P = "\<lambda>c m n st y. \<not> (length m = 1 \<and> int (length n) < pop_size c)", OF _ run],
      goal_cases)
    case (1 f c m n st y)
    note IH = 1(1) and eq = 1(2)
    show ?case
    proof
      assume a: "length m = 1 \<and> int (length n) < pop_size c"
      with eq have "f c m n \<lparr>heap = heap st, rng = snd (next_raw (snd (next_raw (rng st))))\<rparr> = Some y"
        by (simp add: randrange_one)
      from IH[OF this] a show False by simp
    qed
  qed
  with assms show False by simp
qed

subsection \<open>Initialization and the generations\<close>

lemma random_point_bounds:
  assumes "lo \<le> hi"
  shows "(\<forall>x\<in>set point. lo \<le> x \<and> x \<le> hi) \<Longrightarrow>
         (\<forall>x\<in>set (fst (random_point n lo hi point g)). lo \<le> x \<and> x \<le> hi) \<and>
         length (fst (random_point n lo hi point g)) = length point + n"
proof (induction n arbitrary: point g)
  case 0
  then show ?case by simp
next
  case (Suc n)
  obtain x g' where u: "uniform lo hi g = (x, g')" by (cases "uniform lo hi g")
  with uniform_bounds[OF assms, of g] have "lo \<le> x \<and> x \<le> hi" by simp
  with Suc.prems have "\<forall>y\<in>set (point @ [x]). lo \<le> y \<and> y \<le> hi" by auto
  from Suc.IH[OF this, of g'] u show ?case by simp
qed

lemma init_loop_pop:
  "init_loop n d lo hi population s = (pop', s') \<Longrightarrow>
   pop' = population @ [length (heap s)..<length (heap s) + n] \<and>
   length (heap s') = length (heap s) + n"
proof (induction n arbitrary: population s)
  case 0
  then show ?case by simp
next
  case (Suc n)
  obtain point g' where rp: "random_point d lo hi [] (rng s) = (point, g')"
    by (cases "random_point d lo hi [] (rng s)")
  let ?s1 = "\<lparr>heap = heap s @ [point], rng = g'\<rparr>"
  from Suc.prems rp
  have "init_loop n d lo hi (population @ [length (heap s)]) ?s1 = (pop', s')" by simp
  from Suc.IH[OF this] have
    ih: "pop' = (population @ [length (heap s)]) @ [length (heap ?s1)..<length (heap ?s1) + n]"
      "length (heap s') = length (heap ?s1) + n"
    by blast+
  have l: "length (heap ?s1) = Suc (length (heap s))" by simp
  have u: "[length (heap s)..<length (heap s) + Suc n]
          = length (heap s) # [Suc (length (heap s))..<Suc (length (heap s)) + n]"
    by (simp add: upt_conv_Cons del: upt_Suc)
  show ?case
    unfolding u using ih unfolding l by simp
qed


lemma init_loop_cells:
  "init_loop n d lo hi population s = (pop', s') \<Longrightarrow>
   (\<forall>x < length (heap s). heap s' ! x = heap s ! x) \<and>
   (lo \<le> hi \<longrightarrow> (\<forall>a. length (heap s) \<le> a \<and> a < length (heap s') \<longrightarrow>
      length (heap s' ! a) = d \<and> (\<forall>x\<in>set (heap s' ! a). lo \<le> x \<and> x \<le> hi)))"
proof (induction n arbitrary: population s)
  case 0
  then show ?case by auto
next
  case (Suc n)
  obtain point g' where rp: "random_point d lo hi [] (rng s) = (point, g')"
    by (cases "random_point d lo hi [] (rng s)")
  define s1 where "s1 = \<lparr>heap = heap s @ [point], rng = g'\<rparr>"
  have h1: "heap s1 = heap s @ [point]" by (simp add: s1_def)
  from Suc.prems rp
  have run: "init_loop n d lo hi (population @ [length (heap s)]) s1 = (pop', s')"
    by (simp add: s1_def)
  from Suc.IH[OF run] have
    old: "\<forall>x < length (heap s1). heap s' ! x = heap s1 ! x"
    and new: "lo \<le> hi \<longrightarrow> (\<forall>a. length (heap s1) \<le> a \<and> a < length (heap s') \<longrightarrow>
            length (heap s' ! a) = d \<and> (\<forall>x\<in>set (heap s' ! a). lo \<le> x \<and> x \<le> hi))"
    by blast+
  have p: "lo \<le> hi \<longrightarrow> length point = d \<and> (\<forall>x\<in>set point. lo \<le> x \<and> x \<le> hi)"
  proof
    assume le: "lo \<le> hi"
    have e: "\<forall>x\<in>set ([]::real list). lo \<le> x \<and> x \<le> hi" by simp
    from random_point_bounds[OF le e, of d "rng s"]
    show "length point = d \<and> (\<forall>x\<in>set point. lo \<le> x \<and> x \<le> hi)"
      unfolding rp by simp
  qed
  have 2: "\<forall>x < length (heap s). heap s' ! x = heap s ! x"
    using old by (simp add: h1 nth_append)
  have 3: "heap s' ! length (heap s) = point" using old by (simp add: h1)
  have 4: "length (heap s' ! a) = d \<and> (\<forall>x\<in>set (heap s' ! a). lo \<le> x \<and> x \<le> hi)"
    if le: "lo \<le> hi" and a: "length (heap s) \<le> a" "a < length (heap s')" for a
  proof (cases "a = length (heap s)")
    case True
    with 3 p le show ?thesis by simp
  next
    case False
    with a have "length (heap s1) \<le> a \<and> a < length (heap s')" by (simp add: h1)
    with new le show ?thesis by blast
  qed
  from 2 4 show ?case by blast
qed

lemma initialize_population_result:
  assumes "initialize_population psize d lo hi s = (pop, s')"
  shows "pop = [length (heap s)..<length (heap s) + nat psize] \<and>
         length (heap s') = length (heap s) + nat psize \<and>
         (\<forall>x < length (heap s). heap s' ! x = heap s ! x) \<and>
         (lo \<le> hi \<longrightarrow> (\<forall>a\<in>set pop. length (heap s' ! a) = nat d \<and>
            (\<forall>x\<in>set (heap s' ! a). lo \<le> x \<and> x \<le> hi)))"
proof -
  from assms have run: "init_loop (nat psize) (nat d) lo hi [] s = (pop, s')"
    by (simp add: initialize_population_def)
  from init_loop_pop[OF run] have
    1: "pop = [length (heap s)..<length (heap s) + nat psize]"
      "length (heap s') = length (heap s) + nat psize" by simp_all
  from init_loop_cells[OF run] have
    2: "\<forall>x < length (heap s). heap s' ! x = heap s ! x"
    and 3: "lo \<le> hi \<longrightarrow> (\<forall>a. length (heap s) \<le> a \<and> a < length (heap s') \<longrightarrow>
      length (heap s' ! a) = nat d \<and> (\<forall>x\<in>set (heap s' ! a). lo \<le> x \<and> x \<le> hi))"
    by blast+
  have "length (heap s') = length (heap s) + nat psize \<Longrightarrow>
        \<forall>a\<in>set [length (heap s)..<length (heap s) + nat psize].
          length (heap s) \<le> a \<and> a < length (heap s')" by simp
  with 1 3 have 4: "lo \<le> hi \<longrightarrow> (\<forall>a\<in>set pop. length (heap s' ! a) = nat d \<and>
            (\<forall>x\<in>set (heap s' ! a). lo \<le> x \<and> x \<le> hi))" by blast
  from 1 2 4 show ?thesis by blast
qed

text \<open>What a generation that returns a population has done.\<close>

lemma generation_cases:
  assumes "generation cfg el_p to_p f population s = Some (Inr (pop', s'))"
  obtains elites t_winner rest g1 where
    "elite_selection (sort_key (\<lambda>a. f (heap s ! a)) population) el_p = Inr elites"
    "tournament_selection (heap s)
       (drop (length elites) (sort_key (\<lambda>a. f (heap s ! a)) population)) to_p (rng s)
       = Inr (t_winner, rest, g1)"
    "evolve_loop cfg (elites @ [t_winner]) elites \<lparr>heap = heap s, rng = g1\<rparr>
       = Some (Inr (pop', s'))"
proof -
  let ?sorted = "sort_key (\<lambda>a. f (heap s ! a)) population"
  from assms obtain elites where e: "elite_selection ?sorted el_p = Inr elites"
    by (cases "elite_selection ?sorted el_p") (auto simp: generation_def)
  from assms e obtain t_winner rest g1 where
    t: "tournament_selection (heap s) (drop (length elites) ?sorted) to_p (rng s)
          = Inr (t_winner, rest, g1)"
    by (cases "tournament_selection (heap s) (drop (length elites) ?sorted) to_p (rng s)")
       (auto simp: generation_def)
  from assms e t have "evolve_loop cfg (elites @ [t_winner]) elites \<lparr>heap = heap s, rng = g1\<rparr>
       = Some (Inr (pop', s'))"
    by (simp add: generation_def evolve_def)
  with e t that show thesis by blast
qed

lemma elite_selection_Inr:
  assumes "elite_selection population percent = Inr elites"
  shows "elites = take (nat \<lceil>real (length population) * percent\<rceil>) population \<and>
         nat \<lceil>real (length population) * percent\<rceil> \<le> length population"
  using assms by (simp add: elite_selection_closed split: if_splits)

text \<open>
  A generation that returns: the new population starts with the elites, a prefix of the
  sorted population; the rest are new lists; the lists that existed before are unchanged.
\<close>

lemma generation_result:
  assumes gen: "generation cfg el_p to_p f population s = Some (Inr (pop', s'))"
  shows "\<exists>elites children t_winner g1.
      pop' = elites @ children \<and>
      elites = take (nat \<lceil>real (length population) * el_p\<rceil>)
                 (sort_key (\<lambda>a. f (heap s ! a)) population) \<and>
      nat \<lceil>real (length population) * el_p\<rceil> \<le> length population \<and>
      t_winner \<in> set population \<and>
      (\<forall>c\<in>set children. length (heap s) \<le> c \<and> c < length (heap s')) \<and>
      length (heap s) \<le> length (heap s') \<and>
      (\<forall>x < length (heap s). heap s' ! x = heap s ! x) \<and>
      evolve_loop cfg (elites @ [t_winner]) elites \<lparr>heap = heap s, rng = g1\<rparr>
        = Some (Inr (pop', s'))"
  using gen
proof (cases rule: generation_cases)
  case (1 elites t_winner rest g1)
  let ?sorted = "sort_key (\<lambda>a. f (heap s ! a)) population"
  from elite_selection_Inr[OF 1(1)] have
    e: "elites = take (nat \<lceil>real (length population) * el_p\<rceil>) ?sorted"
      "nat \<lceil>real (length population) * el_p\<rceil> \<le> length population"
    by simp_all
  from tournament_selection_winner[OF 1(2)] have "t_winner \<in> set (drop (length elites) ?sorted)" .
  then have "t_winner \<in> set ?sorted" by (rule in_set_dropD)
  then have w: "t_winner \<in> set population" by simp
  from evolve_loop_population[OF 1(3)] obtain children where
    c: "pop' = elites @ children"
      "\<forall>c\<in>set children. length (heap s) \<le> c \<and> c < length (heap s')"
    by auto
  from evolve_loop_frame[OF 1(3)] have
    f: "length (heap s) \<le> length (heap s')" "\<forall>x < length (heap s). heap s' ! x = heap s ! x"
    by simp_all
  from e w c f 1(3) show ?thesis by blast
qed

lemma generation_bounds:
  assumes "search_min cfg \<le> search_max cfg"
    and "population_in_bounds cfg (heap s) population"
    and "generation cfg el_p to_p f population s = Some (Inr (pop', s'))"
  shows "population_in_bounds cfg (heap s') pop'"
proof -
  from generation_result[OF assms(3)] obtain elites t_winner g1 where
    e: "elites = take (nat \<lceil>real (length population) * el_p\<rceil>)
                 (sort_key (\<lambda>a. f (heap s ! a)) population)"
    and w: "t_winner \<in> set population"
    and run: "evolve_loop cfg (elites @ [t_winner]) elites \<lparr>heap = heap s, rng = g1\<rparr>
        = Some (Inr (pop', s'))"
    by blast
  have "set elites \<subseteq> set (sort_key (\<lambda>a. f (heap s ! a)) population)"
    unfolding e by (rule set_take_subset)
  then have sub: "set elites \<subseteq> set population" by simp
  have "population_in_bounds cfg (heap \<lparr>heap = heap s, rng = g1\<rparr>)
          ((elites @ [t_winner]) @ elites)"
    using assms(2) sub w by (auto simp: population_in_bounds_def)
  with evolve_loop_bounds[OF run assms(1)]
  have "population_in_bounds cfg (heap s') ((elites @ [t_winner]) @ pop')" by blast
  then show ?thesis by (simp add: population_in_bounds_def)
qed

lemma generations_bounds:
  assumes "search_min cfg \<le> search_max cfg"
  shows "population_in_bounds cfg (heap s) population \<Longrightarrow>
         generations cfg el_p to_p f k population s = Some (Inr (pop', s')) \<Longrightarrow>
         population_in_bounds cfg (heap s') pop'"
proof (induction k arbitrary: population s)
  case 0
  then show ?case by simp
next
  case (Suc k)
  from Suc.prems(2) obtain pop1 s1 where
    g: "generation cfg el_p to_p f population s = Some (Inr (pop1, s1))"
    and r: "generations cfg el_p to_p f k pop1 s1 = Some (Inr (pop', s'))"
    by (auto split: option.splits sum.splits)
  from generation_bounds[OF assms Suc.prems(1) g] have "population_in_bounds cfg (heap s1) pop1" .
  from Suc.IH[OF this r] show ?case .
qed

lemma initialize_population_bounds:
  assumes "search_min cfg \<le> search_max cfg"
    and "initialize_population psize d (search_min cfg) (search_max cfg) s = (pop, s')"
  shows "population_in_bounds cfg (heap s') pop"
proof -
  from initialize_population_result[OF assms(2)] assms(1) have
    p: "pop = [length (heap s)..<length (heap s) + nat psize]"
    and l: "length (heap s') = length (heap s) + nat psize"
    and b: "\<forall>a\<in>set pop. \<forall>x\<in>set (heap s' ! a). search_min cfg \<le> x \<and> x \<le> search_max cfg"
    by blast+
  from p l have "\<forall>a\<in>set pop. a < length (heap s')" by simp
  with b show ?thesis by (simp add: population_in_bounds_def in_bounds_def)
qed

text \<open>Without elites the mating pool is the tournament winner alone.\<close>

lemma generation_single_parent:
  assumes "elite_selection (sort_key (\<lambda>a. f (heap s ! a)) population) el_p = Inr elites"
    and "tournament_selection (heap s)
           (drop (length elites) (sort_key (\<lambda>a. f (heap s ! a)) population)) to_p (rng s)
           = Inr (t_winner, rest, g1)"
    and "length (elites @ [t_winner]) = 1"
    and "int (length elites) < pop_size cfg"
  shows "evolve cfg (elites @ [t_winner]) elites \<lparr>heap = heap s, rng = g1\<rparr> = None"
    and "generation cfg el_p to_p f population s = None"
proof -
  show e: "evolve cfg (elites @ [t_winner]) elites \<lparr>heap = heap s, rng = g1\<rparr> = None"
    unfolding evolve_def using assms(3,4)
    by (simp add: evolve_loop_singleton_diverges)
  show "generation cfg el_p to_p f population s = None"
    using assms(1,2) e by (simp add: generation_def)
qed

lemma generation_without_elites:
  assumes "population \<noteq> []" "0 < pop_size cfg" "0 < to_p" "to_p \<le> 1"
  shows "generation cfg 0 to_p f population s = None"
proof -
  let ?sorted = "sort_key (\<lambda>a. f (heap s ! a)) population"
  have e: "elite_selection ?sorted 0 = Inr []" by (simp add: elite_selection_closed)
  from assms(1) have "drop (length ([] :: addr list)) ?sorted \<noteq> []"
    by (metis drop0 length_sort length_0_conv list.size(3))
  from tournament_selection_ok[OF this assms(3,4), of "heap s" "rng s"] obtain w rest g1 where
    t: "tournament_selection (heap s) (drop (length ([] :: addr list)) ?sorted) to_p (rng s)
          = Inr (w, rest, g1)" by blast
  from generation_single_parent(2)[OF e t] assms(2) show ?thesis by simp
qed

lemma genetic_algorithm_without_elites:
  assumes "0 < pop_size cfg" "0 < epochs" "0 < to_p" "to_p \<le> 1"
  shows "genetic_algorithm cfg 0 to_p ndim epochs f s = None"
proof -
  obtain pop s0 where
    i: "initialize_population (pop_size cfg) ndim (search_min cfg) (search_max cfg) s = (pop, s0)"
    by (cases "initialize_population (pop_size cfg) ndim (search_min cfg) (search_max cfg) s")
  from initialize_population_result[OF i] assms(1) have "length pop = nat (pop_size cfg)"
    by simp
  with assms(1) have ne: "pop \<noteq> []" by auto
  from assms(2) obtain k where k: "nat epochs = Suc k" by (cases "nat epochs") auto
  have "generations cfg 0 to_p f (nat epochs) pop s0 = None"
    unfolding k by (simp add: generation_without_elites[OF ne assms(1,3,4)])
  with i show ?thesis by (simp add: genetic_algorithm_def)
qed

subsection \<open>A run, step by step\<close>

lemma evolve_loop_step:
  assumes "int (length newp) < pop_size cfg"
    and "randrange (int (length mp)) (rng s) = Inr (i, g1)"
    and "randrange (int (length mp)) g1 = Inr (j, g2)"
    and "i \<noteq> j"
    and "crossover cfg (mp ! i) (mp ! j) \<lparr>heap = heap s, rng = g2\<rparr> = Inr ((ca, cb), s1)"
  shows "evolve_loop cfg mp newp s =
         evolve_loop cfg mp (newp @ [ca, cb])
           (snd (mutation cfg cb (search_min cfg) (search_max cfg)
              (snd (mutation cfg ca (search_min cfg) (search_max cfg) s1))))"
  using assms by (subst evolve_loop.simps) (simp add: mutation_def)

lemma start_run:
  "initialize_population (pop_size demo_cfg) 2 (search_min demo_cfg) (search_max demo_cfg)
     start_state = ([0, 1, 2], gen_state)"
proof -
  have a: "nat (pop_size demo_cfg) = Suc (Suc (Suc 0))" by (simp add: demo_cfg_def)
  have b: "nat 2 = Suc (Suc 0)" by simp
  have c: "search_min demo_cfg = - 5" "search_max demo_cfg = 5" by (simp_all add: demo_cfg_def)
  show ?thesis
    unfolding initialize_population_def a b c start_state_def gen_state_def
    by (simp add: uniform_def random_unit_def next_raw_tape_of)
qed


lemma gen_state_heap:
  "heap gen_state = [[0, 0], [- 5 / 2, - 5 / 2], [5 / 2, 5 / 2]]"
  "rng gen_state = tape_of gen_tape"
  by (simp_all add: gen_state_def)

lemma gen_keys:
  "styb_tang [0, 0] = 0" "styb_tang [- (5 / 2), - (5 / 2)] = - (1175 / 16)"
  "styb_tang [5 / 2, 5 / 2] = - (775 / 16)"
  by (simp_all add: styb_tang_def power4_eq_xxxx power2_eq_square)

lemma gen_sorted:
  "sort_key (\<lambda>a. styb_tang (heap gen_state ! a)) [0, 1, 2] = [1, 2, 0]"
  by (simp add: gen_state_heap gen_keys)

lemma gen_elites: "elite_selection [1, 2, 0] (1 / 3) = Inr [1]"
  by (simp add: elite_selection_closed)

lemma gen_tournament:
  "tournament_selection (heap gen_state) [2, 0] (1 / 2) (rng gen_state)
     = Inr (2, [0], tape_of (tl gen_tape))"
proof -
  have k: "nat \<lceil>real (length [2, 0 :: addr]) * (1 / 2)\<rceil> = Suc 0" by simp
  have l: "tournament_loop (Suc 0) [2, 0] [] (tape_of gen_tape)
             = Inr ([2], [0], tape_of (tl gen_tape))"
    by (simp add: gen_tape_def randint_def next_raw_tape_of list_pop_def)
  show ?thesis
    unfolding tournament_selection_def k gen_state_heap l by simp
qed


lemma gen_crossover:
  "crossover demo_cfg 1 2
     \<lparr>heap = heap gen_state,
        rng = tape_of [4503599627370496, 0, 0, 4503599627370496, 4503599627370496,
                       4503599627370496]\<rparr>
   = Inr ((3, 4),
       \<lparr>heap = [[0, 0], [- 5 / 2, - 5 / 2], [5 / 2, 5 / 2], [- 5 / 2, - 5 / 2], [5 / 2, 5 / 2]],
          rng = tape_of [0, 0, 4503599627370496, 4503599627370496, 4503599627370496]\<rparr>)"
  by (simp add: crossover_def deepcopy_pair_def demo_cfg_def gen_state_heap uniform_def
        random_unit_def next_raw_tape_of)

lemma gen_mutation_first:
  "snd (mutation demo_cfg 3 (search_min demo_cfg) (search_max demo_cfg)
     \<lparr>heap = [[0, 0], [- 5 / 2, - 5 / 2], [5 / 2, 5 / 2], [- 5 / 2, - 5 / 2], [5 / 2, 5 / 2]],
        rng = tape_of [0, 0, 4503599627370496, 4503599627370496, 4503599627370496]\<rparr>)
   = \<lparr>heap = [[0, 0], [- 5 / 2, - 5 / 2], [5 / 2, 5 / 2], [- 5, - 5 / 2], [5 / 2, 5 / 2]],
        rng = tape_of [4503599627370496, 4503599627370496]\<rparr>"
  by (simp add: mutation_def mutate_gene_def demo_cfg_def uniform_def random_unit_def
        next_raw_tape_of upt_conv_Cons Let_def)

lemma gen_mutation_second:
  "snd (mutation demo_cfg 4 (search_min demo_cfg) (search_max demo_cfg)
     \<lparr>heap = [[0, 0], [- 5 / 2, - 5 / 2], [5 / 2, 5 / 2], [- 5, - 5 / 2], [5 / 2, 5 / 2]],
        rng = tape_of [4503599627370496, 4503599627370496]\<rparr>)
   = end_state"
  by (simp add: mutation_def mutate_gene_def demo_cfg_def uniform_def random_unit_def
        next_raw_tape_of upt_conv_Cons Let_def end_state_def)


lemma gen_evolve:
  "evolve_loop demo_cfg [1, 2] [1] \<lparr>heap = heap gen_state, rng = tape_of (tl gen_tape)\<rparr>
     = Some (Inr ([1, 3, 4], end_state))"
proof -
  let ?s = "\<lparr>heap = heap gen_state, rng = tape_of (tl gen_tape)\<rparr>"
  have small: "int (length [1 :: addr]) < pop_size demo_cfg" by (simp add: demo_cfg_def)
  have r1: "randrange (int (length [1, 2 :: addr])) (rng ?s)
      = Inr (0, tape_of [1, 4503599627370496, 0, 0, 4503599627370496, 4503599627370496,
                         4503599627370496])"
    by (simp add: gen_tape_def randrange_def next_raw_tape_of)
  have r2: "randrange (int (length [1, 2 :: addr]))
      (tape_of [1, 4503599627370496, 0, 0, 4503599627370496, 4503599627370496,
                4503599627370496])
      = Inr (1, tape_of [4503599627370496, 0, 0, 4503599627370496, 4503599627370496,
                         4503599627370496])"
    by (simp add: randrange_def next_raw_tape_of)
  have x: "crossover demo_cfg ([1, 2] ! 0) ([1, 2] ! 1)
      \<lparr>heap = heap ?s, rng = tape_of [4503599627370496, 0, 0, 4503599627370496,
                                        4503599627370496, 4503599627370496]\<rparr>
    = Inr ((3, 4),
       \<lparr>heap = [[0, 0], [- 5 / 2, - 5 / 2], [5 / 2, 5 / 2], [- 5 / 2, - 5 / 2], [5 / 2, 5 / 2]],
          rng = tape_of [0, 0, 4503599627370496, 4503599627370496, 4503599627370496]\<rparr>)"
    using gen_crossover by simp
  have big: "\<not> int (length ([1] @ [3, 4 :: addr])) < pop_size demo_cfg"
    by (simp add: demo_cfg_def)
  have ne: "(0::nat) \<noteq> 1" by simp
  have "evolve_loop demo_cfg [1, 2] [1] ?s
      = evolve_loop demo_cfg [1, 2] ([1] @ [3, 4]) end_state"
    unfolding evolve_loop_step[OF small r1 r2 ne x] gen_mutation_first gen_mutation_second
    by (rule refl)
  also have "\<dots> = Some (Inr ([1] @ [3, 4], end_state))"
    by (rule evolve_loop_finished[OF big])
  finally show ?thesis by (simp only: append.simps)
qed

lemma gen_run:
  "generation demo_cfg (1 / 3) (1 / 2) styb_tang [0, 1, 2] gen_state
     = Some (Inr ([1, 3, 4], end_state))"
proof -
  have d: "drop (length [1 :: addr]) [1, 2, 0] = [2, 0 :: addr]" by simp
  show ?thesis
    unfolding generation_def Let_def gen_sorted gen_elites sum.case d gen_tournament
      prod.case evolve_def append.simps gen_evolve
    by (rule refl)
qed

lemma gen_tournament_third:
  "tournament_selection (heap gen_state) [1, 2, 0] (1 / 3) (rng gen_state)
     = Inr (1, [2, 0], tape_of (tl gen_tape))"
proof -
  have k: "nat \<lceil>real (length [1, 2, 0 :: addr]) * (1 / 3)\<rceil> = Suc 0" by simp
  have l: "tournament_loop (Suc 0) [1, 2, 0] [] (tape_of gen_tape)
             = Inr ([1], [2, 0], tape_of (tl gen_tape))"
    by (simp add: gen_tape_def randint_def next_raw_tape_of list_pop_def)
  show ?thesis
    unfolding tournament_selection_def k gen_state_heap l by simp
qed

lemma gen_elites_half: "elite_selection [1, 2, 0] (1 / 2) = Inr [1, 2]"
  by (simp add: elite_selection_closed)

lemma gen_tournament_last:
  "tournament_selection (heap gen_state) [0] (1 / 2) (rng gen_state)
     = Inr (0, [], tape_of (tl gen_tape))"
proof -
  have "\<lceil>(1::real) / 2\<rceil> = 1" by (rule ceiling_unique) simp_all
  then have k: "nat \<lceil>real (length [0 :: addr]) * (1 / 2)\<rceil> = Suc 0" by simp
  have l: "tournament_loop (Suc 0) [0] [] (tape_of gen_tape)
             = Inr ([0], [], tape_of (tl gen_tape))"
    by (simp add: gen_tape_def randint_def next_raw_tape_of list_pop_def)
  show ?thesis
    unfolding tournament_selection_def k gen_state_heap l by simp
qed

lemma gen_evolve_odd:
  "evolve_loop demo_cfg [1, 2, 0] [1, 2] \<lparr>heap = heap gen_state, rng = tape_of (tl gen_tape)\<rparr>
     = Some (Inr ([1, 2, 3, 4], end_state))"
proof -
  let ?s = "\<lparr>heap = heap gen_state, rng = tape_of (tl gen_tape)\<rparr>"
  have small: "int (length [1, 2 :: addr]) < pop_size demo_cfg" by (simp add: demo_cfg_def)
  have r1: "randrange (int (length [1, 2, 0 :: addr])) (rng ?s)
      = Inr (0, tape_of [1, 4503599627370496, 0, 0, 4503599627370496, 4503599627370496,
                         4503599627370496])"
    by (simp add: gen_tape_def randrange_def next_raw_tape_of)
  have r2: "randrange (int (length [1, 2, 0 :: addr]))
      (tape_of [1, 4503599627370496, 0, 0, 4503599627370496, 4503599627370496,
                4503599627370496])
      = Inr (1, tape_of [4503599627370496, 0, 0, 4503599627370496, 4503599627370496,
                         4503599627370496])"
    by (simp add: randrange_def next_raw_tape_of)
  have x: "crossover demo_cfg ([1, 2, 0] ! 0) ([1, 2, 0] ! 1)
      \<lparr>heap = heap ?s, rng = tape_of [4503599627370496, 0, 0, 4503599627370496,
                                        4503599627370496, 4503599627370496]\<rparr>
    = Inr ((3, 4),
       \<lparr>heap = [[0, 0], [- 5 / 2, - 5 / 2], [5 / 2, 5 / 2], [- 5 / 2, - 5 / 2], [5 / 2, 5 / 2]],
          rng = tape_of [0, 0, 4503599627370496, 4503599627370496, 4503599627370496]\<rparr>)"
    using gen_crossover by simp
  have big: "\<not> int (length ([1, 2] @ [3, 4 :: addr])) < pop_size demo_cfg"
    by (simp add: demo_cfg_def)
  have ne: "(0::nat) \<noteq> 1" by simp
  have "evolve_loop demo_cfg [1, 2, 0] [1, 2] ?s
      = evolve_loop demo_cfg [1, 2, 0] ([1, 2] @ [3, 4]) end_state"
    unfolding evolve_loop_step[OF small r1 r2 ne x] gen_mutation_first gen_mutation_second
    by (rule refl)
  also have "\<dots> = Some (Inr ([1, 2] @ [3, 4], end_state))"
    by (rule evolve_loop_finished[OF big])
  finally show ?thesis by (simp only: append.simps)
qed

section \<open>The claims of the specification\<close>

subsection \<open>The size of the population\<close>

text \<open>
  C1. Population size invariant: the claim is that evolve returns exactly
  \<^verbatim>\<open>POP_SIZE\<close> individuals, also when \<^verbatim>\<open>POP_SIZE\<close> minus the number of
  elites is odd. The loop appends two children per pass and only then compares the length
  with \<^verbatim>\<open>POP_SIZE\<close>. With \<^verbatim>\<open>POP_SIZE = 3\<close> and an elite proportion of
  \<open>1/2\<close> there are two elites; evolve returns four individuals, and so does the
  generation: the next generation's sort receives a population of four.
\<close>

theorem evolve_overshoots_odd_remainder:
  "pop_size demo_cfg = 3 \<and>
   evolve demo_cfg [1, 2, 0] [1, 2] \<lparr>heap = heap gen_state, rng = tape_of (tl gen_tape)\<rparr>
     = Some (Inr ([1, 2, 3, 4], end_state)) \<and>
   generation demo_cfg (1 / 2) (1 / 2) styb_tang [0, 1, 2] gen_state
     = Some (Inr ([1, 2, 3, 4], end_state)) \<and>
   int (length [1, 2, 3, 4 :: addr]) = pop_size demo_cfg + 1"
proof -
  have d: "drop (length [1, 2 :: addr]) [1, 2, 0] = [0 :: addr]" by simp
  have e: "evolve demo_cfg [1, 2, 0] [1, 2] \<lparr>heap = heap gen_state, rng = tape_of (tl gen_tape)\<rparr>
     = Some (Inr ([1, 2, 3, 4], end_state))"
    unfolding evolve_def append.simps by (rule gen_evolve_odd)
  have g: "generation demo_cfg (1 / 2) (1 / 2) styb_tang [0, 1, 2] gen_state
     = Some (Inr ([1, 2, 3, 4], end_state))"
    unfolding generation_def Let_def gen_sorted gen_elites_half sum.case d gen_tournament_last
      prod.case evolve_def append.simps gen_evolve_odd
    by (rule refl)
  have p: "pop_size demo_cfg = 3" by (simp add: demo_cfg_def)
  from p e g show ?thesis by simp
qed

subsection \<open>Bounds\<close>

text \<open>
  C2. Bounds invariant: provided \<open>search_min \<le> search_max\<close>, every individual is a list
  whose coordinates all lie in \<open>[search_min, search_max]\<close> after initialization; the
  children of parents in bounds are in bounds after crossover; a list in bounds is in
  bounds after mutation; and a population in bounds is in bounds after any number of
  generations.
\<close>

theorem bounds_invariant:
  assumes "search_min cfg \<le> search_max cfg"
  shows
    "(initialize_population psize ndim (search_min cfg) (search_max cfg) s0 = (pop0, s1)
        \<longrightarrow> population_in_bounds cfg (heap s1) pop0) \<and>
     (population_in_bounds cfg (heap s) [a, b] \<and> crossover cfg a b s = Inr ((ca, cb), sx)
        \<longrightarrow> population_in_bounds cfg (heap sx) [ca, cb]) \<and>
     (population_in_bounds cfg (heap s) [c]
        \<longrightarrow> population_in_bounds cfg
              (heap (snd (mutation cfg c (search_min cfg) (search_max cfg) s))) [c]) \<and>
     (population_in_bounds cfg (heap s) population \<and>
      generations cfg el_p to_p f k population s = Some (Inr (population', s'))
        \<longrightarrow> population_in_bounds cfg (heap s') population')"
proof (intro conjI impI)
  assume "initialize_population psize ndim (search_min cfg) (search_max cfg) s0 = (pop0, s1)"
  from initialize_population_bounds[OF assms this]
  show "population_in_bounds cfg (heap s1) pop0" .
next
  assume "population_in_bounds cfg (heap s) [a, b] \<and> crossover cfg a b s = Inr ((ca, cb), sx)"
  then have p: "in_bounds cfg (heap s ! a)" "in_bounds cfg (heap s ! b)"
    and x: "crossover cfg a b s = Inr ((ca, cb), sx)"
    by (simp_all add: population_in_bounds_def)
  from crossover_frame[OF x] crossover_in_bounds[OF x p]
  show "population_in_bounds cfg (heap sx) [ca, cb]"
    by (simp add: population_in_bounds_def)
next
  assume "population_in_bounds cfg (heap s) [c]"
  then have "c < length (heap s)" "in_bounds cfg (heap s ! c)"
    by (simp_all add: population_in_bounds_def)
  with mutation_in_bounds[OF assms, of c s]
  show "population_in_bounds cfg
          (heap (snd (mutation cfg c (search_min cfg) (search_max cfg) s))) [c]"
    by (simp add: population_in_bounds_def)
next
  assume "population_in_bounds cfg (heap s) population \<and>
      generations cfg el_p to_p f k population s = Some (Inr (population', s'))"
  with generations_bounds[OF assms]
  show "population_in_bounds cfg (heap s') population'" by blast
qed

theorem bounds_invariant_witness:
  "search_min demo_cfg \<le> search_max demo_cfg \<and>
   initialize_population (pop_size demo_cfg) 2 (search_min demo_cfg) (search_max demo_cfg)
     start_state = ([0, 1, 2], gen_state) \<and>
   population_in_bounds demo_cfg (heap gen_state) [0, 1, 2] \<and>
   population_in_bounds demo_cfg (heap gen_state) [1, 2] \<and>
   crossover demo_cfg 1 2
     \<lparr>heap = heap gen_state,
        rng = tape_of [4503599627370496, 0, 0, 4503599627370496, 4503599627370496,
                       4503599627370496]\<rparr>
   = Inr ((3, 4),
       \<lparr>heap = [[0, 0], [- 5 / 2, - 5 / 2], [5 / 2, 5 / 2], [- 5 / 2, - 5 / 2], [5 / 2, 5 / 2]],
          rng = tape_of [0, 0, 4503599627370496, 4503599627370496, 4503599627370496]\<rparr>) \<and>
   population_in_bounds demo_cfg
     [[0, 0], [- 5 / 2, - 5 / 2], [5 / 2, 5 / 2], [- 5 / 2, - 5 / 2], [5 / 2, 5 / 2]] [3, 4] \<and>
   population_in_bounds demo_cfg
     (heap (snd (mutation demo_cfg 3 (search_min demo_cfg) (search_max demo_cfg)
        \<lparr>heap = [[0, 0], [- 5 / 2, - 5 / 2], [5 / 2, 5 / 2], [- 5 / 2, - 5 / 2], [5 / 2, 5 / 2]],
           rng = tape_of [0, 0, 4503599627370496, 4503599627370496, 4503599627370496]\<rparr>)))
     [3] \<and>
   generations demo_cfg (1 / 3) (1 / 2) styb_tang 1 [0, 1, 2] gen_state
     = Some (Inr ([1, 3, 4], end_state)) \<and>
   population_in_bounds demo_cfg (heap end_state) [1, 3, 4]"
proof -
  let ?x = "\<lparr>heap = heap gen_state,
        rng = tape_of [4503599627370496, 0, 0, 4503599627370496, 4503599627370496,
                       4503599627370496]\<rparr>"
  let ?y = "\<lparr>heap = [[0, 0], [- 5 / 2, - 5 / 2], [5 / 2, 5 / 2], [- 5 / 2, - 5 / 2], [5 / 2, 5 / 2]],
          rng = tape_of [0, 0, 4503599627370496, 4503599627370496, 4503599627370496]\<rparr>"
  have le: "search_min demo_cfg \<le> search_max demo_cfg" by (simp add: demo_cfg_def)
  have "generations demo_cfg (1 / 3) (1 / 2) styb_tang (Suc 0) [0, 1, 2] gen_state
     = Some (Inr ([1, 3, 4], end_state))"
    by (simp only: generations.simps gen_run option.case sum.case prod.case)
  then have gens: "generations demo_cfg (1 / 3) (1 / 2) styb_tang 1 [0, 1, 2] gen_state
     = Some (Inr ([1, 3, 4], end_state))"
    by (simp only: One_nat_def)
  note t = bounds_invariant[OF le]
  from t[of "pop_size demo_cfg" 2 start_state "[0, 1, 2]" gen_state] start_run
  have b0: "population_in_bounds demo_cfg (heap gen_state) [0, 1, 2]" by blast
  then have b12: "population_in_bounds demo_cfg (heap ?x) [1, 2]"
    by (simp add: population_in_bounds_def)
  from t[of _ _ _ _ _ ?x 1 2 3 4 ?y] b12 gen_crossover
  have b34: "population_in_bounds demo_cfg (heap ?y) [3, 4]" by blast
  then have b3: "population_in_bounds demo_cfg (heap ?y) [3]"
    by (simp add: population_in_bounds_def)
  from t[of _ _ _ _ _ ?y _ _ _ _ _ 3] b3
  have bm: "population_in_bounds demo_cfg
     (heap (snd (mutation demo_cfg 3 (search_min demo_cfg) (search_max demo_cfg) ?y))) [3]"
    by blast
  from t[of _ _ _ _ _ gen_state _ _ _ _ _ _ "[0, 1, 2]" "1 / 3" "1 / 2" styb_tang 1
            "[1, 3, 4]" end_state] b0 gens
  have be: "population_in_bounds demo_cfg (heap end_state) [1, 3, 4]" by blast
  have b12': "population_in_bounds demo_cfg (heap gen_state) [1, 2]"
    using b12 by simp
  have b34': "population_in_bounds demo_cfg
     [[0, 0], [- 5 / 2, - 5 / 2], [5 / 2, 5 / 2], [- 5 / 2, - 5 / 2], [5 / 2, 5 / 2]] [3, 4]"
    using b34 by simp
  from le start_run b0 b12' gen_crossover b34' bm gens be show ?thesis by blast
qed

subsection \<open>Elitism\<close>

text \<open>
  C3. Elitism monotonicity: with a positive elite proportion, a generation that returns a
  population, started on a non-empty population of lists of the heap, returns a non-empty
  population of lists of the heap whose minimum fitness is at most the minimum fitness
  before the generation: the best individual is an elite, carried over unchanged.
\<close>

theorem elitism_monotonicity:
  assumes "0 < el_p" "population \<noteq> []" "\<forall>a\<in>set population. a < length (heap s)"
    and "generation cfg el_p to_p f population s = Some (Inr (population', s'))"
  shows "population' \<noteq> [] \<and> (\<forall>a\<in>set population'. a < length (heap s')) \<and>
         Min ((\<lambda>a. f (heap s' ! a)) ` set population')
           \<le> Min ((\<lambda>a. f (heap s ! a)) ` set population)"
proof -
  let ?sorted = "sort_key (\<lambda>a. f (heap s ! a)) population"
  let ?k = "nat \<lceil>real (length population) * el_p\<rceil>"
  from generation_result[OF assms(4)] obtain elites children where
    p: "population' = elites @ children" and e: "elites = take ?k ?sorted"
    and c: "\<forall>c\<in>set children. length (heap s) \<le> c \<and> c < length (heap s')"
    and l: "length (heap s) \<le> length (heap s')"
    and f: "\<forall>x < length (heap s). heap s' ! x = heap s ! x"
    by blast
  have "0 < real (length population) * el_p" using assms(1,2) by simp
  then have "0 < \<lceil>real (length population) * el_p\<rceil>" by simp
  then have k: "0 < ?k" by simp
  from assms(2) have "?sorted \<noteq> []" by (metis length_sort length_0_conv)
  then obtain w ws where s: "?sorted = w # ws" by (cases ?sorted) auto
  from sort_key_head_minimal[OF s] have
    w: "w \<in> set population" "\<forall>a\<in>set population. f (heap s ! w) \<le> f (heap s ! a)"
    by simp_all
  from k obtain k' where "?k = Suc k'" by (cases ?k) auto
  with e s have "elites = w # take k' ws" by simp
  with p have wp: "w \<in> set population'" by simp
  then have ne: "population' \<noteq> []" by auto
  have "set elites \<subseteq> set ?sorted" unfolding e by (rule set_take_subset)
  then have "\<forall>a\<in>set elites. a < length (heap s)" using assms(3) by auto
  with l have "\<forall>a\<in>set elites. a < length (heap s')" by auto
  with c p have valid: "\<forall>a\<in>set population'. a < length (heap s')" by auto
  from w(1) assms(3) f have same: "heap s' ! w = heap s ! w" by simp
  have "Min ((\<lambda>a. f (heap s' ! a)) ` set population') \<le> f (heap s' ! w)"
    using wp by (intro Min_le) simp_all
  also have "\<dots> = f (heap s ! w)" by (simp add: same)
  also have "\<dots> \<le> Min ((\<lambda>a. f (heap s ! a)) ` set population)"
    using w(2) assms(2) by (intro Min.boundedI) auto
  finally show ?thesis using ne valid by simp
qed

theorem elitism_monotonicity_witness:
  "(0::real) < 1 / 3 \<and> [0, 1, 2] \<noteq> ([] :: addr list) \<and> length (heap gen_state) = 3 \<and>
   generation demo_cfg (1 / 3) (1 / 2) styb_tang [0, 1, 2] gen_state
     = Some (Inr ([1, 3, 4], end_state)) \<and>
   [1, 3, 4] \<noteq> ([] :: addr list) \<and> length (heap end_state) = 5 \<and>
   Min ((\<lambda>a. styb_tang (heap end_state ! a)) ` set [1, 3, 4])
     \<le> Min ((\<lambda>a. styb_tang (heap gen_state ! a)) ` set [0, 1, 2])"
proof -
  have h: "(0::real) < 1 / 3" "[0, 1, 2] \<noteq> ([] :: addr list)"
    "\<forall>a\<in>set [0, 1, 2]. a < length (heap gen_state)"
    by (simp_all add: gen_state_def)
  have l: "length (heap gen_state) = 3" "length (heap end_state) = 5"
    by (simp_all add: gen_state_def end_state_def)
  from elitism_monotonicity[OF h gen_run] h(1,2) l gen_run show ?thesis by blast
qed

subsection \<open>A mating pool of one\<close>

text \<open>
  C4. Degenerate pool detection, as the code has it: the code has no check of the mating
  pool and raises no error for it. When the mating pool has exactly one entry and there are
  fewer elites than \<^verbatim>\<open>POP_SIZE\<close>, evolve never returns; so a generation whose
  elite selection and tournament produce such a pool never returns either.
\<close>

theorem degenerate_pool_never_returns:
  "(length mating_pool = 1 \<and> int (length elites0) < pop_size cfg
      \<longrightarrow> evolve cfg mating_pool elites0 s0 = None) \<and>
   (elite_selection (sort_key (\<lambda>a. f (heap s ! a)) population) el_p = Inr elites \<and>
    tournament_selection (heap s)
      (drop (length elites) (sort_key (\<lambda>a. f (heap s ! a)) population)) to_p (rng s)
      = Inr (t_winner, rest, g1) \<and>
    length (elites @ [t_winner]) = 1 \<and> int (length elites) < pop_size cfg
      \<longrightarrow> generation cfg el_p to_p f population s = None)"
proof (intro conjI impI)
  assume "length mating_pool = 1 \<and> int (length elites0) < pop_size cfg"
  then show "evolve cfg mating_pool elites0 s0 = None"
    unfolding evolve_def by (simp add: evolve_loop_singleton_diverges)
next
  assume a: "elite_selection (sort_key (\<lambda>a. f (heap s ! a)) population) el_p = Inr elites \<and>
    tournament_selection (heap s)
      (drop (length elites) (sort_key (\<lambda>a. f (heap s ! a)) population)) to_p (rng s)
      = Inr (t_winner, rest, g1) \<and>
    length (elites @ [t_winner]) = 1 \<and> int (length elites) < pop_size cfg"
  from a have a1: "elite_selection (sort_key (\<lambda>a. f (heap s ! a)) population) el_p = Inr elites"
    and a2: "tournament_selection (heap s)
      (drop (length elites) (sort_key (\<lambda>a. f (heap s ! a)) population)) to_p (rng s)
      = Inr (t_winner, rest, g1)"
    and a3: "length (elites @ [t_winner]) = 1" and a4: "int (length elites) < pop_size cfg"
    by blast+
  show "generation cfg el_p to_p f population s = None"
    by (rule generation_single_parent(2)[OF a1 a2 a3 a4])
qed

theorem degenerate_pool_never_returns_witness:
  "length [1 :: addr] = 1 \<and> int (length ([] :: addr list)) < pop_size demo_cfg \<and>
   evolve demo_cfg [1] [] \<lparr>heap = heap gen_state, rng = tape_of (tl gen_tape)\<rparr> = None \<and>
   elite_selection (sort_key (\<lambda>a. styb_tang (heap gen_state ! a)) [0, 1, 2]) 0 = Inr [] \<and>
   tournament_selection (heap gen_state)
      (drop (length ([] :: addr list)) (sort_key (\<lambda>a. styb_tang (heap gen_state ! a)) [0, 1, 2]))
      (1 / 3) (rng gen_state)
      = Inr (1, [2, 0], tape_of (tl gen_tape)) \<and>
   length (([] :: addr list) @ [1]) = 1 \<and>
   generation demo_cfg 0 (1 / 3) styb_tang [0, 1, 2] gen_state = None"
proof -
  have h1: "length [1 :: addr] = 1 \<and> int (length ([] :: addr list)) < pop_size demo_cfg"
    by (simp add: demo_cfg_def)
  have e: "elite_selection (sort_key (\<lambda>a. styb_tang (heap gen_state ! a)) [0, 1, 2]) 0 = Inr []"
    by (simp add: elite_selection_closed)
  have d: "drop (length ([] :: addr list)) [1, 2, 0 :: addr] = [1, 2, 0]" by simp
  have t: "tournament_selection (heap gen_state)
      (drop (length ([] :: addr list)) (sort_key (\<lambda>a. styb_tang (heap gen_state ! a)) [0, 1, 2]))
      (1 / 3) (rng gen_state)
      = Inr (1, [2, 0], tape_of (tl gen_tape))"
    unfolding gen_sorted d by (rule gen_tournament_third)
  have l: "length (([] :: addr list) @ [1]) = 1" by simp
  have p: "int (length ([] :: addr list)) < pop_size demo_cfg" by (simp add: demo_cfg_def)
  note th = degenerate_pool_never_returns[of "[1]" "[]" demo_cfg
      "\<lparr>heap = heap gen_state, rng = tape_of (tl gen_tape)\<rparr>" styb_tang gen_state
      "[0, 1, 2]" 0 "[]" "1 / 3" 1 "[2, 0]" "tape_of (tl gen_tape)"]
  from th h1 have 1: "evolve demo_cfg [1] []
      \<lparr>heap = heap gen_state, rng = tape_of (tl gen_tape)\<rparr> = None" by blast
  from th e t l p have 2: "generation demo_cfg 0 (1 / 3) styb_tang [0, 1, 2] gen_state = None"
    by blast
  from h1 1 e t l 2 show ?thesis by blast
qed

theorem degenerate_pool_counterexample:
  "genetic_algorithm demo_cfg 0 (1 / 2) 2 1 styb_tang start_state = None"
  by (rule genetic_algorithm_without_elites) (simp_all add: demo_cfg_def)

subsection \<open>The fitness function of the tournament\<close>

text \<open>
  C5. Pluggable fitness function: the claim is that every selection stage ranks by the
  function passed to the driver. The tournament does not: it sorts its entrants by
  \<^verbatim>\<open>styb_tang\<close>. With the first coordinate as fitness function and the four
  points \<open>[0]\<close>, \<open>[1]\<close>, \<open>[2]\<close>, \<open>[3]\<close> all entered, the winner is \<open>[3]\<close>, the
  worst entrant under the first coordinate and the best under \<^verbatim>\<open>styb_tang\<close>.
\<close>

theorem tournament_ignores_fitness_function:
  "tournament_selection quad_heap [0, 1, 2, 3] 1 (tape_of []) = Inr (3, [], tape_of []) \<and>
   first_coordinate (quad_heap ! 0) < first_coordinate (quad_heap ! 3) \<and>
   first_coordinate (quad_heap ! 1) < first_coordinate (quad_heap ! 3) \<and>
   first_coordinate (quad_heap ! 2) < first_coordinate (quad_heap ! 3) \<and>
   styb_tang (quad_heap ! 3) < styb_tang (quad_heap ! 0)"
proof -
  have c: "nat \<lceil>real (length [0, 1, 2, 3 :: addr]) * 1\<rceil> = Suc (Suc (Suc (Suc 0)))"
    by simp
  have l: "tournament_loop (Suc (Suc (Suc (Suc 0)))) [0, 1, 2, 3] [] (tape_of [])
             = Inr ([0, 1, 2, 3], [], tape_of [])"
    by (simp add: randint_def next_raw_tape_of_Nil list_pop_def)
  have k: "styb_tang (quad_heap ! 0) = 0" "styb_tang (quad_heap ! 1) = - 5"
    "styb_tang (quad_heap ! 2) = - 19" "styb_tang (quad_heap ! 3) = - 24"
    "styb_tang (quad_heap ! Suc 0) = - 5"
    by (simp_all add: quad_heap_def styb_tang_def)
  have "tournament_selection quad_heap [0, 1, 2, 3] 1 (tape_of []) = Inr (3, [], tape_of [])"
    unfolding tournament_selection_def c l by (simp add: k)
  moreover have "first_coordinate (quad_heap ! 0) < first_coordinate (quad_heap ! 3)"
    "first_coordinate (quad_heap ! 1) < first_coordinate (quad_heap ! 3)"
    "first_coordinate (quad_heap ! 2) < first_coordinate (quad_heap ! 3)"
    by (simp_all add: quad_heap_def first_coordinate_def)
  ultimately show ?thesis using k by simp
qed

subsection \<open>Crossover: the pivot\<close>

text \<open>
  C6. Crossover pivot property: when recombination occurs on parents of one length
  \<open>d \<ge> 2\<close>, the pivot is drawn from \<open>[1, d - 1]\<close>; below the pivot child A has the genes
  of parent A and child B those of parent B, from the pivot on they are swapped.
\<close>

theorem crossover_pivot_property:
  assumes "length (heap s ! a) = d" "length (heap s ! b) = d" "2 \<le> d"
    and "fst (uniform 0 1 (rng s)) < cross_rate cfg"
  shows "\<exists>pivot g2 child_a child_b s'.
      randint 1 (int d - 1) (snd (uniform 0 1 (rng s))) = Inr (pivot, g2) \<and>
      1 \<le> pivot \<and> pivot \<le> int d - 1 \<and>
      crossover cfg a b s = Inr ((child_a, child_b), s') \<and>
      length (heap s' ! child_a) = d \<and> length (heap s' ! child_b) = d \<and>
      (\<forall>i<d. (int i < pivot \<longrightarrow>
                 heap s' ! child_a ! i = heap s ! a ! i \<and>
                 heap s' ! child_b ! i = heap s ! b ! i) \<and>
              (pivot \<le> int i \<longrightarrow>
                 heap s' ! child_a ! i = heap s ! b ! i \<and>
                 heap s' ! child_b ! i = heap s ! a ! i))"
proof -
  have "(1::int) \<le> int d - 1" using assms(3) by simp
  from randint_ok[OF this, of "snd (uniform 0 1 (rng s))"] obtain pivot g2 where
    r: "randint 1 (int d - 1) (snd (uniform 0 1 (rng s))) = Inr (pivot, g2)"
    and p: "1 \<le> pivot" "pivot \<le> int d - 1" by blast
  have c: "crossover cfg a b s =
           Inr ((length (heap s), Suc (length (heap s))),
                \<lparr>heap = heap s @
                   [map (\<lambda>i. if int i < pivot then heap s ! a ! i else heap s ! b ! i)
                      [0..<length (heap s ! a)],
                    map (\<lambda>i. if int i < pivot then heap s ! b ! i else heap s ! a ! i)
                      [0..<length (heap s ! a)]],
                 rng = g2\<rparr>)"
    using assms r by (intro crossover_recombine) simp_all
  show ?thesis
    using r p c assms(1) by (auto simp: nth_append)
qed

theorem crossover_pivot_property_witness:
  "length (heap recombine_state ! 0) = 3 \<and> length (heap recombine_state ! 1) = 3 \<and>
   (2::nat) \<le> 3 \<and> fst (uniform 0 1 (rng recombine_state)) < cross_rate demo_cfg \<and>
   (\<exists>pivot g2 child_a child_b s'.
      randint 1 (int 3 - 1) (snd (uniform 0 1 (rng recombine_state))) = Inr (pivot, g2) \<and>
      1 \<le> pivot \<and> pivot \<le> int 3 - 1 \<and>
      crossover demo_cfg 0 1 recombine_state = Inr ((child_a, child_b), s') \<and>
      length (heap s' ! child_a) = 3 \<and> length (heap s' ! child_b) = 3 \<and>
      (\<forall>i<3. (int i < pivot \<longrightarrow>
                 heap s' ! child_a ! i = heap recombine_state ! 0 ! i \<and>
                 heap s' ! child_b ! i = heap recombine_state ! 1 ! i) \<and>
              (pivot \<le> int i \<longrightarrow>
                 heap s' ! child_a ! i = heap recombine_state ! 1 ! i \<and>
                 heap s' ! child_b ! i = heap recombine_state ! 0 ! i)))"
proof -
  have h: "length (heap recombine_state ! 0) = 3" "length (heap recombine_state ! 1) = 3"
    "(2::nat) \<le> 3" "fst (uniform 0 1 (rng recombine_state)) < cross_rate demo_cfg"
    by (simp_all add: recombine_state_def pair_heap_def demo_cfg_def uniform_def
          random_unit_def next_raw_tape_of)
  from crossover_pivot_property[OF h] h show ?thesis by blast
qed

subsection \<open>Crossover: the copies\<close>

text \<open>
  C7. Crossover identity property: when the rate draw skips recombination, which it always
  does when the crossover rate is 0, crossover returns two lists equal to the parents, held
  in cells that did not exist before the call; the call leaves every existing list as it
  was, and mutating either returned child in any later state alters neither parent.
\<close>

theorem crossover_identity_property:
  assumes "cross_rate cfg \<le> fst (uniform 0 1 (rng s)) \<or> cross_rate cfg = 0"
    and "a < length (heap s)" "b < length (heap s)"
  shows "\<exists>ca cb s'. crossover cfg a b s = Inr ((ca, cb), s') \<and>
      heap s' ! ca = heap s ! a \<and> heap s' ! cb = heap s ! b \<and>
      length (heap s) \<le> ca \<and> ca < length (heap s') \<and>
      length (heap s) \<le> cb \<and> cb < length (heap s') \<and>
      (\<forall>x < length (heap s). heap s' ! x = heap s ! x) \<and>
      (\<forall>c t lo hi. c = ca \<or> c = cb \<longrightarrow>
          heap (snd (mutation cfg c lo hi t)) ! a = heap t ! a \<and>
          heap (snd (mutation cfg c lo hi t)) ! b = heap t ! b)"
proof -
  have skip: "cross_rate cfg \<le> fst (uniform 0 1 (rng s))"
    using assms(1) uniform_unit_nonneg[of "rng s"] by auto
  obtain ca cb h' where d: "deepcopy_pair a b (heap s) = ((ca, cb), h')"
    by (metis surj_pair)
  let ?s' = "\<lparr>heap = h', rng = snd (uniform 0 1 (rng s))\<rparr>"
  have c: "crossover cfg a b s = Inr ((ca, cb), ?s')"
    using crossover_copy[OF skip, of a b] d by simp
  note f = deepcopy_pair_fresh[OF d]
  have ne: "ca \<noteq> a" "ca \<noteq> b" "cb \<noteq> a" "cb \<noteq> b"
    using f assms(2,3) by auto
  have m: "\<forall>c t lo hi. c = ca \<or> c = cb \<longrightarrow>
          heap (snd (mutation cfg c lo hi t)) ! a = heap t ! a \<and>
          heap (snd (mutation cfg c lo hi t)) ! b = heap t ! b"
    using ne by (auto simp: mutation_other)
  show ?thesis
    using c f m by (intro exI[of _ ca] exI[of _ cb] exI[of _ ?s']) simp
qed

theorem crossover_identity_property_witness:
  "cross_rate demo_cfg \<le> fst (uniform 0 1 (rng copy_state)) \<and>
   0 < length (heap copy_state) \<and> 1 < length (heap copy_state) \<and>
   (\<exists>ca cb s'. crossover demo_cfg 0 1 copy_state = Inr ((ca, cb), s') \<and>
      heap s' ! ca = [1, 2, 3] \<and> heap s' ! cb = [4, 5, 6] \<and>
      2 \<le> ca \<and> 2 \<le> cb \<and>
      heap (snd (mutation demo_cfg ca (- 5) 5 s')) ! 0 = [1, 2, 3] \<and>
      heap (snd (mutation demo_cfg cb (- 5) 5 s')) ! 1 = [4, 5, 6])"
proof -
  have h: "cross_rate demo_cfg \<le> fst (uniform 0 1 (rng copy_state))"
    by (simp add: copy_state_def demo_cfg_def uniform_def random_unit_def next_raw_tape_of)
  have v: "0 < length (heap copy_state)" "1 < length (heap copy_state)"
    by (simp_all add: copy_state_def pair_heap_def)
  have e: "heap copy_state ! 0 = [1, 2, 3]" "heap copy_state ! 1 = [4, 5, 6]"
    "length (heap copy_state) = 2" "heap copy_state ! Suc 0 = [4, 5, 6]"
    by (simp_all add: copy_state_def pair_heap_def)
  from crossover_identity_property[OF disjI1[OF h] v] obtain ca cb s' where
    c: "crossover demo_cfg 0 1 copy_state = Inr ((ca, cb), s')"
    and eq: "heap s' ! ca = heap copy_state ! 0" "heap s' ! cb = heap copy_state ! 1"
    and fr: "length (heap copy_state) \<le> ca" "length (heap copy_state) \<le> cb"
    and old: "\<forall>x < length (heap copy_state). heap s' ! x = heap copy_state ! x"
    and mu: "\<forall>c t lo hi. c = ca \<or> c = cb \<longrightarrow>
          heap (snd (mutation demo_cfg c lo hi t)) ! 0 = heap t ! 0 \<and>
          heap (snd (mutation demo_cfg c lo hi t)) ! 1 = heap t ! 1"
    by blast
  from old have "heap s' ! 0 = heap copy_state ! 0" "heap s' ! 1 = heap copy_state ! 1"
    by (simp_all add: e(3))
  then have o: "heap s' ! 0 = [1, 2, 3]" "heap s' ! 1 = [4, 5, 6]"
    by (simp_all only: e)
  from mu have "heap (snd (mutation demo_cfg ca (- 5) 5 s')) ! 0 = heap s' ! 0"
    "heap (snd (mutation demo_cfg cb (- 5) 5 s')) ! 1 = heap s' ! 1"
    by blast+
  with o have "heap (snd (mutation demo_cfg ca (- 5) 5 s')) ! 0 = [1, 2, 3]"
    "heap (snd (mutation demo_cfg cb (- 5) 5 s')) ! 1 = [4, 5, 6]" by simp_all
  moreover from eq fr have "heap s' ! ca = [1, 2, 3]" "heap s' ! cb = [4, 5, 6]" "2 \<le> ca" "2 \<le> cb"
    by (simp_all add: e)
  ultimately show ?thesis using h v c by blast
qed

subsection \<open>Tournament selection\<close>



subsection \<open>Crossover: gene conservation\<close>

text \<open>
  C9. Crossover gene conservation: when recombination occurs on parents of equal length,
  it succeeds if the length is at least 2, and whenever it succeeds both children have the
  parents' length, at every index the two children hold the two parents' genes in some
  order, and no child holds a value that no parent holds.
\<close>

theorem crossover_gene_conservation:
  assumes "fst (uniform 0 1 (rng s)) < cross_rate cfg"
    and "length (heap s ! a) = length (heap s ! b)"
  shows "(2 \<le> length (heap s ! a) \<longrightarrow> (\<exists>ca cb s'. crossover cfg a b s = Inr ((ca, cb), s'))) \<and>
         (\<forall>ca cb s'. crossover cfg a b s = Inr ((ca, cb), s') \<longrightarrow>
            length (heap s' ! ca) = length (heap s ! a) \<and>
            length (heap s' ! cb) = length (heap s ! a) \<and>
            (\<forall>i < length (heap s ! a).
               {#heap s' ! ca ! i, heap s' ! cb ! i#} = {#heap s ! a ! i, heap s ! b ! i#}) \<and>
            set (heap s' ! ca) \<union> set (heap s' ! cb) \<subseteq> set (heap s ! a) \<union> set (heap s ! b))"
proof -
  have first: "\<exists>ca cb s'. crossover cfg a b s = Inr ((ca, cb), s')"
    if "2 \<le> length (heap s ! a)"
  proof -
    from that have "(1::int) \<le> int (length (heap s ! a)) - 1" by simp
    from randint_ok[OF this, of "snd (uniform 0 1 (rng s))"] obtain pivot g2 where
      "randint 1 (int (length (heap s ! a)) - 1) (snd (uniform 0 1 (rng s))) = Inr (pivot, g2)"
      by blast
    from crossover_recombine[OF assms(1) this] assms(2) show ?thesis by simp
  qed
  have second: "length (heap s' ! ca) = length (heap s ! a) \<and>
            length (heap s' ! cb) = length (heap s ! a) \<and>
            (\<forall>i < length (heap s ! a).
               {#heap s' ! ca ! i, heap s' ! cb ! i#} = {#heap s ! a ! i, heap s ! b ! i#}) \<and>
            set (heap s' ! ca) \<union> set (heap s' ! cb) \<subseteq> set (heap s ! a) \<union> set (heap s ! b)"
    if c: "crossover cfg a b s = Inr ((ca, cb), s')" for ca cb s'
  proof -
    from crossover_recombined_cells[OF c assms(1)] obtain pivot where
      cell_a: "heap s' ! ca =
        map (\<lambda>i. if int i < pivot then heap s ! a ! i else heap s ! b ! i)
          [0..<length (heap s ! a)]"
      and cell_b: "heap s' ! cb =
        map (\<lambda>i. if int i < pivot then heap s ! b ! i else heap s ! a ! i)
          [0..<length (heap s ! a)]"
      by blast
    have "set (heap s' ! ca) \<union> set (heap s' ! cb) \<subseteq> set (heap s ! a) \<union> set (heap s ! b)"
      using assms(2) by (auto simp: cell_a cell_b)
    then show ?thesis by (simp add: cell_a cell_b)
  qed
  from first second show ?thesis by blast
qed

theorem crossover_gene_conservation_witness:
  "fst (uniform 0 1 (rng recombine_state)) < cross_rate demo_cfg \<and>
   length (heap recombine_state ! 0) = length (heap recombine_state ! 1) \<and>
   2 \<le> length (heap recombine_state ! 0) \<and>
   (\<exists>ca cb s'. crossover demo_cfg 0 1 recombine_state = Inr ((ca, cb), s') \<and>
      length (heap s' ! ca) = 3 \<and> length (heap s' ! cb) = 3 \<and>
      {#heap s' ! ca ! 2, heap s' ! cb ! 2#} = {#3, 6#} \<and>
      set (heap s' ! ca) \<union> set (heap s' ! cb) \<subseteq> {1, 2, 3, 4, 5, 6})"
proof -
  have h: "fst (uniform 0 1 (rng recombine_state)) < cross_rate demo_cfg"
    "length (heap recombine_state ! 0) = length (heap recombine_state ! 1)"
    by (simp_all add: recombine_state_def pair_heap_def demo_cfg_def uniform_def
          random_unit_def next_raw_tape_of)
  have l: "2 \<le> length (heap recombine_state ! 0)"
    by (simp add: recombine_state_def pair_heap_def)
  have v: "heap recombine_state ! 0 = [1, 2, 3]" "heap recombine_state ! Suc 0 = [4, 5, 6]"
    by (simp_all add: recombine_state_def pair_heap_def)
  note t = crossover_gene_conservation[OF h]
  from t l obtain ca cb s' where c: "crossover demo_cfg 0 1 recombine_state = Inr ((ca, cb), s')"
    by blast
  from t c have
    "length (heap s' ! ca) = length (heap recombine_state ! 0)"
    "length (heap s' ! cb) = length (heap recombine_state ! 0)"
    "\<forall>i < length (heap recombine_state ! 0).
       {#heap s' ! ca ! i, heap s' ! cb ! i#} = {#heap recombine_state ! 0 ! i, heap recombine_state ! 1 ! i#}"
    "set (heap s' ! ca) \<union> set (heap s' ! cb)
       \<subseteq> set (heap recombine_state ! 0) \<union> set (heap recombine_state ! 1)"
    by blast+
  then have "length (heap s' ! ca) = 3" "length (heap s' ! cb) = 3"
    "{#heap s' ! ca ! 2, heap s' ! cb ! 2#} = {#3, 6#}"
    "set (heap s' ! ca) \<union> set (heap s' ! cb) \<subseteq> {1, 2, 3, 4, 5, 6}"
    by (auto simp: v)
  with h l c show ?thesis by blast
qed

subsection \<open>Mutation: the frame\<close>

text \<open>
  C10. Mutation frame property: mutation returns the address it was given and works in
  place: the heap keeps its size, every other list is untouched, the list keeps its
  length; a coordinate whose draw does not trigger mutation (the draw exceeds the mutation
  rate) keeps its value, and a coordinate whose draw triggers it becomes the old value
  plus the perturbation, clamped into \<open>[s_min, s_max]\<close>.
\<close>

theorem mutation_frame_property:
  assumes "child < length (heap s)"
    and "mutation cfg child s_min s_max s = (child', s')"
  shows "child' = child \<and>
         length (heap s') = length (heap s) \<and>
         (\<forall>a. a \<noteq> child \<longrightarrow> heap s' ! a = heap s ! a) \<and>
         length (heap s' ! child) = length (heap s ! child) \<and>
         (\<forall>i < length (heap s ! child).
            (mutat_rate cfg < gene_draw cfg child s_min s_max i s \<longrightarrow>
               heap s' ! child ! i = heap s ! child ! i) \<and>
            (gene_draw cfg child s_min s_max i s \<le> mutat_rate cfg \<longrightarrow>
               heap s' ! child ! i =
                 min (max (heap s ! child ! i + gene_diff cfg child s_min s_max i s) s_min) s_max))"
proof -
  have c: "child' = child"
    using assms(2) mutation_fst[of cfg child s_min s_max s] by simp
  have s': "s' = snd (mutation cfg child s_min s_max s)"
    using assms(2) by simp
  have "\<forall>i < length (heap s ! child).
            (mutat_rate cfg < gene_draw cfg child s_min s_max i s \<longrightarrow>
               heap s' ! child ! i = heap s ! child ! i) \<and>
            (gene_draw cfg child s_min s_max i s \<le> mutat_rate cfg \<longrightarrow>
               heap s' ! child ! i =
                 min (max (heap s ! child ! i + gene_diff cfg child s_min s_max i s) s_min) s_max)"
    using assms(1) by (simp add: s' mutation_coord_draw)
  then show ?thesis
    by (simp add: c s' mutation_other)
qed

theorem mutation_frame_property_witness:
  "0 < length (heap mutate_state) \<and>
   (\<exists>s'. mutation demo_cfg 0 (- 5) 5 mutate_state = (0, s') \<and>
      length (heap s') = 2 \<and> heap s' ! 1 = [7] \<and> length (heap s' ! 0) = 2 \<and>
      mutat_rate demo_cfg < gene_draw demo_cfg 0 (- 5) 5 1 mutate_state \<and>
      heap s' ! 0 ! 1 = 2 \<and>
      gene_draw demo_cfg 0 (- 5) 5 0 mutate_state \<le> mutat_rate demo_cfg \<and>
      heap s' ! 0 ! 0 = - 1 / 4)"
proof -
  have v: "0 < length (heap mutate_state)" by (simp add: mutate_state_def)
  obtain s' where m: "mutation demo_cfg 0 (- 5) 5 mutate_state = (0, s')"
    by (simp add: mutation_def)
  have d0: "gene_draw demo_cfg 0 (- 5) 5 0 mutate_state \<le> mutat_rate demo_cfg"
    by (simp add: gene_draw_def mutation_at_def mutate_state_def demo_cfg_def uniform_def
          random_unit_def next_raw_tape_of)
  have f0: "gene_diff demo_cfg 0 (- 5) 5 0 mutate_state = - 5 / 4"
    by (simp add: gene_diff_def mutation_at_def mutate_state_def demo_cfg_def uniform_def
          random_unit_def next_raw_tape_of)
  have d1: "mutat_rate demo_cfg < gene_draw demo_cfg 0 (- 5) 5 1 mutate_state"
    by (simp add: gene_draw_def mutation_at_def mutate_gene_def mutate_state_def demo_cfg_def
          uniform_def random_unit_def next_raw_tape_of Let_def)
  have h: "heap mutate_state ! 0 = [1, 2]" "heap mutate_state ! Suc 0 = [7]"
    "length (heap mutate_state) = 2"
    by (simp_all add: mutate_state_def)
  note t = mutation_frame_property[OF v m]
  from t have "length (heap s') = 2" "heap s' ! 1 = [7]" "length (heap s' ! 0) = 2"
    by (simp_all add: h)
  moreover from t d1 have "heap s' ! 0 ! 1 = 2" by (simp add: h)
  moreover from t d0 f0 have "heap s' ! 0 ! 0 = - 1 / 4" by (simp add: h)
  ultimately show ?thesis using v m d0 d1 by blast
qed

end
